theory Spec2Isabelle
  imports Complex_Main "HOL-Library.Multiset" "HOL-Library.Sublist" "HOL-Library.Code_Target_Nat"
begin

section \<open>The job executor of \<^verbatim>\<open>handler.js\<close>\<close>

text \<open>
  The handler runs one workflow task: it registers the task in the Redis store, looks
  whether the task has completed before, fetches the job message, waits for the input
  files, runs the command with retries and reports the exit code.  Everything outside the
  handler (the Redis server, the file system, the child process, the random number
  generator, the notification connector) is a parameter of the model, so that a theorem
  quantifies over every behaviour of these collaborators.

  Numbers read from the environment are integer-valued numeric strings in the source
  (\<^verbatim>\<open>process.env.X || default\<close>); the arithmetic of the source coerces them to numbers,
  and the model takes them as \<^typ>\<open>int\<close>.  An unset variable is \<^term>\<open>None\<close>.
  The set-up of the working directory and of the log files (lines 347 to 385) is not
  part of the model: a run starts once that set-up has succeeded.
\<close>

subsection \<open>Waiting for input files (\<^verbatim>\<open>waitForInputs\<close>, lines 292 to 345)\<close>

text \<open>
  The promise of \<^verbatim>\<open>waitForInputs\<close> is settled by \<^verbatim>\<open>resolve()\<close> (line 334) or by
  \<^verbatim>\<open>reject("Error waiting for input files", files)\<close> (line 304).
\<close>

datatype wait_result = AllReady | WaitRejected

text \<open>
  The closure variables of \<^verbatim>\<open>waitForInputs\<close>.  \<open>filesReady\<close> pairs a file with the round in
  which it was seen (the source stores \<^verbatim>\<open>Date.now()\<close>).  \<open>rounds\<close> is the observation log
  the properties are stated on: one entry per executed round, in order, listing every
  \<^verbatim>\<open>fs.existsSync\<close> call of that round with its answer.
\<close>

record wait_state =
  filesToWatch :: "string list"
  filesReady :: "(string \<times> nat) list"
  num_retries :: nat
  rounds :: "(string \<times> bool) list list"

text \<open>
  Lines 315 to 322: \<^verbatim>\<open>forEach\<close> visits every entry; an entry whose file exists is deleted,
  which leaves a hole in the array (\<^term>\<open>None\<close>).
\<close>

definition forEach_delete :: "(string \<Rightarrow> bool) \<Rightarrow> string list \<Rightarrow> string option list" where
  "forEach_delete ex fs = map (\<lambda>f. if ex f then None else Some f) fs"

text \<open>
  Line 323: \<^verbatim>\<open>filesToWatch.filter(f => { return f; })\<close> keeps the truthy entries: it drops
  the holes, and with them every entry that is the empty string.
\<close>

definition filter_truthy :: "string option list \<Rightarrow> string list" where
  "filter_truthy arr = concat (map (\<lambda>e. case e of None \<Rightarrow> [] | Some f \<Rightarrow> if f = [] then [] else [f]) arr)"

text \<open>
  \<^verbatim>\<open>checkFiles\<close>; \<open>ex n f\<close> is the answer of \<^verbatim>\<open>fs.existsSync(f)\<close> during round \<open>n\<close>
  (rounds are counted from 0).  The timer between two rounds is not modelled: the next
  round is the recursive call.
\<close>

function checkFiles :: "(nat \<Rightarrow> string \<Rightarrow> bool) \<Rightarrow> int \<Rightarrow> wait_state \<Rightarrow> wait_result \<times> wait_state" where
  "checkFiles ex max_retries st =
     (if int (num_retries st) > max_retries then (WaitRejected, st)
      else
        let n = num_retries st;
            watched = filesToWatch st;
            found = filter (ex n) watched;
            left = filter_truthy (forEach_delete (ex n) watched);
            st' = st\<lparr> num_retries := n + 1,
                      filesReady := filesReady st @ map (\<lambda>f. (f, n)) found,
                      filesToWatch := left,
                      rounds := rounds st @ [map (\<lambda>f. (f, ex n f)) watched] \<rparr>
        in if length left = 0 then (AllReady, st')
           else checkFiles ex max_retries st')"
  by pat_completeness auto
termination
  by (relation "measure (\<lambda>(ex, m, st). nat (m + 1 - int (num_retries st)))") auto

declare checkFiles.simps [simp del]

definition waitForInputs :: "(nat \<Rightarrow> string \<Rightarrow> bool) \<Rightarrow> string list \<Rightarrow> int \<Rightarrow> wait_result \<times> wait_state" where
  "waitForInputs ex files max_retries =
     checkFiles ex max_retries
       \<lparr> filesToWatch = files, filesReady = [], num_retries = 0, rounds = [] \<rparr>"

text \<open>The rounds of existence checks of a wait, and the files it has seen.\<close>

definition checkRounds :: "(nat \<Rightarrow> string \<Rightarrow> bool) \<Rightarrow> string list \<Rightarrow> int \<Rightarrow> (string \<times> bool) list list" where
  "checkRounds ex files max_retries = rounds (snd (waitForInputs ex files max_retries))"


text \<open>
  For the proofs: the state after one executed round, the list watched in round \<open>i\<close>,
  and the state of a wait in terms of these lists.
\<close>

definition round_step :: "(nat \<Rightarrow> string \<Rightarrow> bool) \<Rightarrow> wait_state \<Rightarrow> wait_state" where
  "round_step ex st =
     st\<lparr> num_retries := num_retries st + 1,
         filesReady := filesReady st
           @ map (\<lambda>f. (f, num_retries st)) (filter (ex (num_retries st)) (filesToWatch st)),
         filesToWatch := filter (\<lambda>f. \<not> ex (num_retries st) f \<and> f \<noteq> []) (filesToWatch st),
         rounds := rounds st @ [map (\<lambda>f. (f, ex (num_retries st) f)) (filesToWatch st)] \<rparr>"

fun watching :: "(nat \<Rightarrow> string \<Rightarrow> bool) \<Rightarrow> string list \<Rightarrow> nat \<Rightarrow> string list" where
  "watching ex files 0 = files"
| "watching ex files (Suc i) = filter (\<lambda>f. \<not> ex i f \<and> f \<noteq> []) (watching ex files i)"

definition closed_form :: "(nat \<Rightarrow> string \<Rightarrow> bool) \<Rightarrow> string list \<Rightarrow> wait_state \<Rightarrow> bool" where
  "closed_form ex files st =
     (filesToWatch st = watching ex files (num_retries st) \<and>
      rounds st = map (\<lambda>i. map (\<lambda>f. (f, ex i f)) (watching ex files i)) [0..<num_retries st] \<and>
      filesReady st =
        concat (map (\<lambda>i. map (\<lambda>f. (f, i)) (filter (ex i) (watching ex files i)))
                  [0..<num_retries st]))"

subsection \<open>Backoff delay (lines 247 and 248)\<close>

text \<open>
  The delay is computed with Numbers, that is in binary64 arithmetic: the expression
  \<^verbatim>\<open>Math.random() * backoffSeed * factor\<close> is two products, each rounded to the nearest
  Number, and \<^verbatim>\<open>Math.floor\<close> takes the integer below the result.

  A Number that is not negative is modelled by a natural number, in units of \<open>2\<^sup>-\<^sup>1\<^sup>0\<^sup>7\<^sup>4\<close>, the
  least positive Number; \<open>d_one\<close> is the number 1 in these units.  \<open>bits n\<close> is the length of
  \<open>n\<close> in binary.  A Number has at most 53 significant bits: this is \<open>is_double\<close>.
  \<open>round53 n\<close> is the Number nearest to \<open>n\<close>, the one with the even significand when two are
  equally near.  A product whose rounding reaches \<open>2\<^sup>1\<^sup>0\<^sup>2\<^sup>4\<close>, which is \<open>overflow\<close> as an integer
  and \<open>d_inf\<close> in units, is \<^verbatim>\<open>Infinity\<close>.
\<close>

fun bits :: "nat \<Rightarrow> nat" where
  "bits n = (if n = 0 then 0 else Suc (bits (n div 2)))"

declare bits.simps [simp del]

definition rne_div :: "nat \<Rightarrow> nat \<Rightarrow> nat" where
  "rne_div n d =
     (let q = n div d; r = n mod d
      in if 2 * r < d then q else if d < 2 * r then q + 1 else if even q then q else q + 1)"

definition round53 :: "nat \<Rightarrow> nat" where
  "round53 n = (let d = 2 ^ (bits n - 53) in rne_div n d * d)"

definition is_double :: "nat \<Rightarrow> bool" where
  "is_double n = (2 ^ (bits n - 53) dvd n)"

definition d_one :: nat where
  "d_one = 2 ^ 1074"

definition overflow :: nat where
  "overflow = 2 ^ 1024"

definition d_inf :: nat where
  "d_inf = overflow * d_one"

definition factor :: "nat \<Rightarrow> int" where
  "factor attempt = (if attempt > 5 then 5 else int attempt)"

text \<open>
  \<open>backoffSeed\<close> is the integer that \<^verbatim>\<open>HF_VAR_BACKOFF_SEED\<close> holds, or 10 (line 160); the first
  product converts it to the nearest Number \<open>S\<close>.  \<open>r\<close> is the draw of \<^verbatim>\<open>Math.random()\<close>, in
  units.  With a negative seed the products are negative: they are rounded by magnitude, and
  the integer below \<open>- x\<close> is minus the integer above \<open>x\<close>.  The result is \<^term>\<open>None\<close> when the
  seed or a product is \<^verbatim>\<open>Infinity\<close>: the delay of the code is then \<^verbatim>\<open>Infinity\<close> or \<^verbatim>\<open>NaN\<close>, no
  integer.
\<close>

definition backoffDelay :: "nat \<Rightarrow> int \<Rightarrow> nat \<Rightarrow> int option" where
  "backoffDelay r backoffSeed attempt =
     (let S = round53 (nat \<bar>backoffSeed\<bar>);
          p1 = round53 (r * S);
          p2 = round53 (p1 * nat (factor attempt))
      in if overflow \<le> S \<or> d_inf \<le> p1 \<or> d_inf \<le> p2 then None
         else if 0 \<le> backoffSeed then Some (int (p2 div d_one))
         else Some (- int ((p2 + d_one - 1) div d_one)))"

subsection \<open>The Redis store and the client \<^verbatim>\<open>rcl\<close>\<close>

text \<open>
  Modelled from the spec: the Redis server behind the client \<^verbatim>\<open>rcl\<close> is not part of the
  sources.  Sections 4.1, 4.2 and 6 of the specification describe its operations: an
  atomic counter increment, set add, remove and membership, and a blocking pop that
  pushes the popped value again.  The command the source issues is \<^verbatim>\<open>brpoplpush\<close>: it pops
  at the right end of the source list and pushes at the left end of the destination
  list.  A list is written with its left end first; a key without a value counts as the
  counter 0, the empty set and the empty list.
\<close>

record store =
  counters :: "string \<Rightarrow> int"
  members :: "string \<Rightarrow> string set"
  queue :: "string \<Rightarrow> string list"

definition redis_sadd :: "string \<Rightarrow> string \<Rightarrow> store \<Rightarrow> store" where
  "redis_sadd key m s = s\<lparr> members := (members s)(key := insert m (members s key)) \<rparr>"

definition redis_srem :: "string \<Rightarrow> string \<Rightarrow> store \<Rightarrow> store" where
  "redis_srem key m s = s\<lparr> members := (members s)(key := members s key - {m}) \<rparr>"

definition redis_incr :: "string \<Rightarrow> store \<Rightarrow> int \<times> store" where
  "redis_incr key s =
     (let n = counters s key + 1 in (n, s\<lparr> counters := (counters s)(key := n) \<rparr>))"

definition redis_sismember :: "string \<Rightarrow> string \<Rightarrow> store \<Rightarrow> bool" where
  "redis_sismember key m s = (m \<in> members s key)"

definition redis_rpoplpush :: "string \<Rightarrow> string \<Rightarrow> store \<Rightarrow> string option \<times> store" where
  "redis_rpoplpush src dst s =
     (case queue s src of
        [] \<Rightarrow> (None, s)
      | x # xs \<Rightarrow>
          let v = last (x # xs);
              s1 = s\<lparr> queue := (queue s)(src := butlast (x # xs)) \<rparr>;
              s2 = s1\<lparr> queue := (queue s1)(dst := v # queue s1 dst) \<rparr>
          in (Some v, s2))"

datatype redis_cmd = SADD | INCR | SISMEMBER | BRPOPLPUSH | SREM

subsection \<open>Values, errors, promises\<close>

text \<open>
  The JavaScript values the handler passes around as exit code and return value: the
  close event carries a number, or \<^verbatim>\<open>null\<close> when a signal ended the process.
\<close>

datatype js_val = Undefined | Null | Num int

datatype js_err = RedisError string | WaitError | TypeError | SyntaxError | NotifyError string

text \<open>A promise was resolved, was rejected, or is never settled.\<close>

datatype 'a promise = Resolved 'a | Rejected js_err | Pending

text \<open>
  The parsed job message.  An absent field (\<^verbatim>\<open>undefined\<close>) is \<^term>\<open>None\<close>; \<open>inputs\<close> and
  \<open>outputs\<close> hold the \<^verbatim>\<open>name\<close> of each entry.  The redirection fields \<^verbatim>\<open>stdout\<close>,
  \<^verbatim>\<open>stdoutAppend\<close>, \<^verbatim>\<open>stderr\<close>, \<^verbatim>\<open>stderrAppend\<close> only select files to pipe to and are left out.
\<close>

record jobmsg =
  jm_name :: string
  executable :: string
  args :: "string list option"
  inputs :: "string list option"
  outputs :: "string list option"

text \<open>How a spawned process ends: the close event with a code, with \<^verbatim>\<open>null\<close>, or never.\<close>

datatype proc_end = Exit int | Signal | Hangs

subsection \<open>Process telemetry (\<^verbatim>\<open>logProcInfo\<close>, lines 93 to 157)\<close>

text \<open>
  A call of the telemetry provider returns data or fails; a failure is the provider's
  \<^verbatim>\<open>ERR_NOT_FOUND\<close> or any other error (with its code).
\<close>

datatype sample_error = ERR_NOT_FOUND | ERR_OTHER string

datatype sample = Sample string | Throws sample_error

datatype probe = Cmdline | IO | NetDev | Usage

datatype tlog =
    LoggerInfo probe nat string
  | PushToGateway string
  | ConsoleError probe nat string

text \<open>Whether the loop has re-armed its timer when the observation ends, or has ended.\<close>

datatype loop_status = Scheduled | Stopped

text \<open>
  A sampling loop runs against the list of the answers its successive samples get.  It
  consumes one answer per tick; when the list is used up the timer of the next tick is
  armed (\<^term>\<open>Scheduled\<close>).  In \<^verbatim>\<open>logProcIO\<close> and \<^verbatim>\<open>logProcNetDev\<close> the \<^verbatim>\<open>setTimeout\<close> is the last
  statement of the \<^verbatim>\<open>try\<close> block, and the \<^verbatim>\<open>catch\<close> block does not re-arm it.
\<close>

fun logProcIO :: "string \<Rightarrow> nat \<Rightarrow> sample list \<Rightarrow> tlog list \<times> loop_status" where
  "logProcIO taskId pid [] = ([], Scheduled)"
| "logProcIO taskId pid (Sample d # rest) =
     (let (l, st) = logProcIO taskId pid rest
      in (LoggerInfo IO pid d # PushToGateway taskId # l, st))"
| "logProcIO taskId pid (Throws ERR_NOT_FOUND # rest) =
     ([ConsoleError IO pid ''does not exist (this is okay)''], Stopped)"
| "logProcIO taskId pid (Throws (ERR_OTHER c) # rest) = ([], Stopped)"

fun logProcNetDev :: "nat \<Rightarrow> sample list \<Rightarrow> tlog list \<times> loop_status" where
  "logProcNetDev pid [] = ([], Scheduled)"
| "logProcNetDev pid (Sample d # rest) =
     (let (l, st) = logProcNetDev pid rest in (LoggerInfo NetDev pid d # l, st))"
| "logProcNetDev pid (Throws e # rest) = ([], Stopped)"

text \<open>
  \<^verbatim>\<open>logPidUsage\<close>: the callback of \<^verbatim>\<open>pidusage\<close> gets an error or the statistics; on an
  error it prints the error's code and returns before the \<^verbatim>\<open>setTimeout\<close>.  The code of
  a missing process is written \<^verbatim>\<open>ENOENT\<close> here.
\<close>

definition err_code :: "sample_error \<Rightarrow> string" where
  "err_code e = (case e of ERR_NOT_FOUND \<Rightarrow> ''ENOENT'' | ERR_OTHER c \<Rightarrow> c)"

fun logPidUsage :: "nat \<Rightarrow> sample list \<Rightarrow> tlog list \<times> loop_status" where
  "logPidUsage pid [] = ([], Scheduled)"
| "logPidUsage pid (Sample d # rest) =
     (let (l, st) = logPidUsage pid rest in (LoggerInfo Usage pid d # l, st))"
| "logPidUsage pid (Throws e # rest) =
     ([ConsoleError Usage pid (''pidusage error '' @ err_code e)], Stopped)"

text \<open>
  The telemetry provider: the command line of a pid, and for each sampling kind and pid
  the answers to the successive samples.
\<close>

record telemetry =
  processCmdline :: "nat \<Rightarrow> sample"
  samples :: "probe \<Rightarrow> nat \<Rightarrow> sample list"

text \<open>
  \<^verbatim>\<open>logProcInfo\<close>: the command line once, then the three loops.  The lines of each loop are
  kept in the order of that loop; how the loops interleave in time is not modelled.
\<close>

definition logProcInfo :: "telemetry \<Rightarrow> string \<Rightarrow> nat \<Rightarrow> tlog list" where
  "logProcInfo t taskId pid =
     (case processCmdline t pid of
        Sample c \<Rightarrow> [LoggerInfo Cmdline pid c]
      | Throws ERR_NOT_FOUND \<Rightarrow> [ConsoleError Cmdline pid ''does not exist'']
      | Throws (ERR_OTHER c) \<Rightarrow> [])
     @ fst (logProcIO taskId pid (samples t IO pid))
     @ fst (logProcNetDev pid (samples t NetDev pid))
     @ fst (logPidUsage pid (samples t Usage pid))"

text \<open>
  \<^verbatim>\<open>addPidTree\<close> (lines 192 to 206): every answer of \<^verbatim>\<open>pidtree\<close> is a list of pids; a pid
  not yet in \<^verbatim>\<open>allpids\<close> is entered there and gets its \<^verbatim>\<open>logProcInfo\<close>.  An answer without
  a list ends the discovery.
\<close>

fun visit_pids :: "telemetry \<Rightarrow> string \<Rightarrow> nat list \<Rightarrow> nat list \<Rightarrow> tlog list \<times> nat list" where
  "visit_pids t taskId allpids [] = ([], allpids)"
| "visit_pids t taskId allpids (p # ps) =
     (if p \<in> set allpids then visit_pids t taskId allpids ps
      else let (l, a) = visit_pids t taskId (p # allpids) ps
           in (logProcInfo t taskId p @ l, a))"

fun addPidTree :: "telemetry \<Rightarrow> string \<Rightarrow> nat list \<Rightarrow> nat list option list \<Rightarrow> tlog list" where
  "addPidTree t taskId allpids [] = []"
| "addPidTree t taskId allpids (None # rest) = []"
| "addPidTree t taskId allpids (Some pids # rest) =
     (let (l, a) = visit_pids t taskId allpids pids in l @ addPidTree t taskId a rest)"

subsection \<open>The world of one run\<close>

text \<open>
  The environment variables the handler reads.
\<close>

record config =
  HF_VAR_NUMBER_OF_RETRIES :: "int option"
  HF_VAR_BACKOFF_SEED :: "int option"
  HF_VAR_WAIT_FOR_INPUT_FILES :: "string option"
  HF_VAR_FILE_WATCH_NUM_RETRIES :: "int option"
  HF_VAR_ENABLE_NETHOGS :: "string option"
  HF_LOG_NODE_NAME :: "string option"
  HF_VAR_COLLOCATION_TYPE :: "string option"
  HF_VAR_COLLOCATION_SIZE :: "string option"

text \<open>
  The collaborators.  \<open>redis_err c\<close> is the error the client hands to the callback of
  command \<open>c\<close>, if any.  \<open>existsSync n f\<close> answers \<^verbatim>\<open>fs.existsSync(f)\<close> in round \<open>n\<close> of the
  input wait.  \<open>close_event a\<close> is the end of the process of attempt \<open>a\<close>, \<open>Math_random a\<close>
  the random number drawn after it (in units of \<open>2\<^sup>-\<^sup>1\<^sup>0\<^sup>7\<^sup>4\<close>), \<open>pid_of a\<close> its pid and
  \<open>pidtree a\<close> the successive answers of the pid tree listing during it.

  Modelled from the spec: \<^verbatim>\<open>connector.notifyJobCompletion\<close> lives in \<^verbatim>\<open>./connector\<close>, which is
  not part of the sources.  Section 4.6 of the specification gives it the result
  \<open>ok|error\<close>; \<open>connector_notify\<close> is that result (\<^term>\<open>None\<close> is ok) together with whatever
  the connector does to the store.
\<close>

record world =
  redis_err :: "redis_cmd \<Rightarrow> string option"
  existsSync :: "nat \<Rightarrow> string \<Rightarrow> bool"
  JSON_parse :: "string \<Rightarrow> jobmsg option"
  close_event :: "nat \<Rightarrow> proc_end"
  Math_random :: "nat \<Rightarrow> nat"
  connector_notify :: "string \<Rightarrow> js_val \<Rightarrow> store \<Rightarrow> string option \<times> store"
  pid_of :: "nat \<Rightarrow> nat"
  pidtree :: "nat \<Rightarrow> nat list option list"
  procfs :: telemetry

text \<open>What a run does, in order.\<close>

datatype event =
    Cmd redis_cmd string string
  | Console string
  | LoggerWarn string
  | LoggerError string
  | CheckRound "(string \<times> bool) list"
  | SpawnNethogs
  | Spawn string "string list option" nat
  | Backoff "int option"
  | Notify string js_val
  | Unhandled js_err

text \<open>
  The state of a run: the store, the variable \<^verbatim>\<open>numRetries\<close> of line 159, the events so
  far, and the lines of the process monitors.  \<^term>\<open>Unhandled\<close> is an error thrown inside
  an event listener: it rejects the promise of the listener, which nobody holds.
\<close>

record run =
  db :: store
  numRetries :: int
  trace :: "event list"
  monitor :: "tlog list"

definition emit :: "event \<Rightarrow> run \<Rightarrow> run" where
  "emit e st = st\<lparr> trace := trace st @ [e] \<rparr>"

subsection \<open>The calls on the client\<close>

text \<open>Lines 50 and 283: the callback only prints an error.\<close>

definition rcl_sadd :: "world \<Rightarrow> string \<Rightarrow> string \<Rightarrow> run \<Rightarrow> run" where
  "rcl_sadd w key m st =
     (let st1 = emit (Cmd SADD key m) st
      in case redis_err w SADD of
           Some e \<Rightarrow> emit (Console e) st1
         | None \<Rightarrow> st1\<lparr> db := redis_sadd key m (db st1) \<rparr>)"

definition rcl_srem :: "world \<Rightarrow> string \<Rightarrow> string \<Rightarrow> run \<Rightarrow> run" where
  "rcl_srem w key m st =
     (let st1 = emit (Cmd SREM key m) st
      in case redis_err w SREM of
           Some e \<Rightarrow> emit (Console e) st1
         | None \<Rightarrow> st1\<lparr> db := redis_srem key m (db st1) \<rparr>)"

text \<open>Lines 53 to 59.\<close>

definition acquireTask :: "world \<Rightarrow> string \<Rightarrow> run \<Rightarrow> int promise \<times> run" where
  "acquireTask w taskId st =
     (let key = taskId @ ''_acqCount'';
          st1 = emit (Cmd INCR key []) st
      in case redis_err w INCR of
           Some e \<Rightarrow> (Rejected (RedisError e), st1)
         | None \<Rightarrow> (let (n, s') = redis_incr key (db st1) in (Resolved n, st1\<lparr> db := s' \<rparr>)))"

text \<open>
  Lines 62 to 69.  With timeout 0 the command blocks until the list has an element; in a
  store that nobody else writes to, that is forever.
\<close>

definition getJobMessage :: "world \<Rightarrow> string \<Rightarrow> nat \<Rightarrow> run \<Rightarrow> string option promise \<times> run" where
  "getJobMessage w taskId timeout st =
     (let jobMsgKey = taskId @ ''_msg'';
          st1 = emit (Cmd BRPOPLPUSH jobMsgKey jobMsgKey) st
      in case redis_err w BRPOPLPUSH of
           Some e \<Rightarrow> (Rejected (RedisError e), st1)
         | None \<Rightarrow>
             (case redis_rpoplpush jobMsgKey jobMsgKey (db st1) of
                (None, s') \<Rightarrow> (if timeout = 0 then Pending else Resolved None, st1)
              | (Some v, s') \<Rightarrow> (Resolved (Some v), st1\<lparr> db := s' \<rparr>)))"

text \<open>\<^verbatim>\<open>taskId.split(':')[1]\<close>, and the text of \<^verbatim>\<open>undefined\<close> in a string concatenation.\<close>

fun split_colon :: "string \<Rightarrow> string list" where
  "split_colon [] = [[]]"
| "split_colon (c # cs) =
     (if c = CHR '':'' then [] # split_colon cs
      else (case split_colon cs of p # ps \<Rightarrow> (c # p) # ps | [] \<Rightarrow> [[c]]))"

definition js_str :: "string option \<Rightarrow> string" where
  "js_str v = (case v of None \<Rightarrow> ''undefined'' | Some x \<Rightarrow> x)"

definition wfId :: "string \<Rightarrow> string" where
  "wfId taskId = js_str (case split_colon taskId of a # b # rest \<Rightarrow> Some b | _ \<Rightarrow> None)"

definition completedKey :: "string \<Rightarrow> string" where
  "completedKey taskId = ''wf:'' @ wfId taskId @ '':completedTasks''"

text \<open>Lines 78 to 86.\<close>

definition hasCompleted :: "world \<Rightarrow> string \<Rightarrow> run \<Rightarrow> bool promise \<times> run" where
  "hasCompleted w taskId st =
     (let key = completedKey taskId;
          st1 = emit (Cmd SISMEMBER key taskId) st
      in case redis_err w SISMEMBER of
           Some e \<Rightarrow> (Rejected (RedisError e), st1)
         | None \<Rightarrow> (Resolved (redis_sismember key taskId (db st1)), st1))"

subsection \<open>Running the job (\<^verbatim>\<open>executeJob\<close>, lines 162 to 290)\<close>

text \<open>The code of the close event; \<^verbatim>\<open>code != 0\<close> holds for every number but 0 and for \<^verbatim>\<open>null\<close>.\<close>

definition close_code :: "proc_end \<Rightarrow> js_val" where
  "close_code e = (case e of Exit c \<Rightarrow> Num c | Signal \<Rightarrow> Null | Hangs \<Rightarrow> Undefined)"

text \<open>
  Lines 252 to 286, the \<^verbatim>\<open>else\<close> branch of the close listener.  The listener is an
  \<^verbatim>\<open>async\<close> function: what it throws rejects its own promise and reaches neither
  \<^verbatim>\<open>resolve\<close> nor \<^verbatim>\<open>reject\<close> of the promise of \<^verbatim>\<open>executeJob\<close>, which then stays pending.
  \<^verbatim>\<open>jm.inputs.map\<close> and \<^verbatim>\<open>jm.outputs.map\<close> throw a type error on an absent field.
\<close>

definition notifyAndFinish :: "world \<Rightarrow> string \<Rightarrow> string \<Rightarrow> jobmsg \<Rightarrow> js_val \<Rightarrow> run \<Rightarrow> js_val promise \<times> run" where
  "notifyAndFinish w taskId allJobsMember jm code st =
     (let st1 = emit (Notify taskId code) st
      in case connector_notify w taskId code (db st1) of
           (Some err, s') \<Rightarrow>
             (Pending,
              emit (Unhandled (NotifyError err))
                (emit (LoggerError (''Redis notification failed: '' @ err))
                  (emit (Console ''Redis notification failed'') (st1\<lparr> db := s' \<rparr>))))
         | (None, s') \<Rightarrow>
             (let st2 = st1\<lparr> db := s' \<rparr>
              in if inputs jm = None \<or> outputs jm = None
                 then (Pending, emit (Unhandled TypeError) st2)
                 else (Resolved code, rcl_srem w ''hf_all_jobs'' allJobsMember st2)))"

text \<open>
  Lines 166 to 206, the start of an attempt: the counter goes down, the process is
  spawned, and the monitors of its pid and of the pids found below it start.
\<close>

definition spawnAttempt :: "world \<Rightarrow> string \<Rightarrow> jobmsg \<Rightarrow> nat \<Rightarrow> run \<Rightarrow> run" where
  "spawnAttempt w taskId jm attempt st =
     (let st1 = st\<lparr> numRetries := numRetries st - 1 \<rparr>;
          st2 = emit (Spawn (executable jm) (args jm) attempt) st1;
          targetPid = pid_of w attempt
      in st2\<lparr> monitor := monitor st2
                @ logProcInfo (procfs w) taskId targetPid
                @ addPidTree (procfs w) taskId [] (pidtree w attempt) \<rparr>)"

text \<open>
  One call of \<^verbatim>\<open>executeJob(jm, attempt)\<close>.  The result is the state of the promise this
  call returns, and the state of the run when nothing more happens.  A retry (line 250)
  calls \<^verbatim>\<open>executeJob\<close> from a timer and drops the promise of that call, so the promise of
  the retried call stays pending whatever the later attempts do.  The failure branch of
  line 234 reads \<^verbatim>\<open>jm["args"].join\<close>, a type error when \<^verbatim>\<open>args\<close> is absent.
\<close>

function executeJob ::
  "world \<Rightarrow> string \<Rightarrow> string \<Rightarrow> int \<Rightarrow> jobmsg \<Rightarrow> nat \<Rightarrow> run \<Rightarrow> js_val promise \<times> run" where
  "executeJob w taskId allJobsMember backoffSeed jm attempt st =
     (let st3 = spawnAttempt w taskId jm attempt st;
          code = close_code (close_event w attempt)
      in if close_event w attempt = Hangs then (Pending, st3)
         else if code \<noteq> Num 0 \<and> args jm = None then (Pending, emit (Unhandled TypeError) st3)
         else if code \<noteq> Num 0 \<and> numRetries st3 > 0 then
           (Pending,
            snd (executeJob w taskId allJobsMember backoffSeed jm (attempt + 1)
                   (emit (Backoff (backoffDelay (Math_random w attempt) backoffSeed attempt)) st3)))
         else notifyAndFinish w taskId allJobsMember jm code st3)"
  by pat_completeness auto
termination
  by (relation "measure (\<lambda>(w, taskId, m, seed, jm, attempt, st). nat (numRetries st))")
     (auto simp: emit_def spawnAttempt_def)

declare executeJob.simps [simp del]

subsection \<open>The run (\<^verbatim>\<open>handleJob\<close>, lines 39 to 456)\<close>

definition allJobsMember :: "config \<Rightarrow> string \<Rightarrow> string" where
  "allJobsMember cfg taskId =
     taskId @ ''#'' @ js_str (HF_LOG_NODE_NAME cfg) @ ''#'' @
     js_str (HF_VAR_COLLOCATION_TYPE cfg) @ ''#'' @ js_str (HF_VAR_COLLOCATION_SIZE cfg)"

definition env_or :: "int option \<Rightarrow> int \<Rightarrow> int" where
  "env_or v d = (case v of None \<Rightarrow> d | Some x \<Rightarrow> x)"

text \<open>
  Step 3 of \<^verbatim>\<open>handleJob\<close> (lines 418 to 426): the wait for the input files, when it is
  switched on and the job has inputs.
\<close>

definition waitStep :: "world \<Rightarrow> config \<Rightarrow> jobmsg \<Rightarrow> run \<Rightarrow> wait_result \<times> run" where
  "waitStep w cfg jm st =
     (case inputs jm of
        None \<Rightarrow> (AllReady, st)
      | Some files \<Rightarrow>
          if HF_VAR_WAIT_FOR_INPUT_FILES cfg = Some ''1'' \<and> files \<noteq> []
          then (let (r, ws) = waitForInputs (existsSync w) files
                                (env_or (HF_VAR_FILE_WATCH_NUM_RETRIES cfg) 10)
                in (r, st\<lparr> trace := trace st @ map CheckRound (rounds ws) \<rparr>))
          else (AllReady, st))"

text \<open>
  Steps 3 to 6 of \<^verbatim>\<open>handleJob\<close>, from the parsed job message on (lines 418 to 455).
  Line 440 reads \<^verbatim>\<open>jm["args"].join\<close>, a type error when \<^verbatim>\<open>args\<close> is absent.
\<close>

definition runJob :: "world \<Rightarrow> config \<Rightarrow> string \<Rightarrow> jobmsg \<Rightarrow> run \<Rightarrow> js_val promise \<times> run" where
  "runJob w cfg taskId jm st =
     (case waitStep w cfg jm st of
        (WaitRejected, st1) \<Rightarrow> (Rejected WaitError, st1)
      | (AllReady, st1) \<Rightarrow>
          let st2 = (if HF_VAR_ENABLE_NETHOGS cfg = Some ''1'' then emit SpawnNethogs st1 else st1)
          in if args jm = None then (Rejected TypeError, st2)
             else executeJob w taskId (allJobsMember cfg taskId)
                    (env_or (HF_VAR_BACKOFF_SEED cfg) 10) jm 1 st2)"

text \<open>
  Steps 1 and 2 of \<^verbatim>\<open>handleJob\<close> (lines 394 to 416): the completion check and the
  retrieval of the job message.  \<^verbatim>\<open>JSON.parse\<close> of a \<^verbatim>\<open>null\<close> reply gives \<^verbatim>\<open>null\<close>, and
  reading a field of it is a type error.
\<close>

definition checkCompletedAndRun :: "world \<Rightarrow> config \<Rightarrow> string \<Rightarrow> run \<Rightarrow> js_val promise \<times> run" where
  "checkCompletedAndRun w cfg taskId st =
     (case hasCompleted w taskId st of
        (Rejected e, st4) \<Rightarrow> (Rejected e, st4)
      | (Pending, st4) \<Rightarrow> (Pending, st4)
      | (Resolved jobHasCompleted, st4) \<Rightarrow>
          if jobHasCompleted
          then (Resolved Undefined, emit (LoggerWarn ''Warning: unexpected restart of job'') st4)
          else
            (case getJobMessage w taskId 0 st4 of
               (Rejected e, st5) \<Rightarrow>
                 (Rejected e, emit (LoggerError ''getJobMessage'') (emit (Console ''getJobMessage'') st5))
             | (Pending, st5) \<Rightarrow> (Pending, st5)
             | (Resolved None, st5) \<Rightarrow> (Rejected TypeError, st5)
             | (Resolved (Some jobMessage), st5) \<Rightarrow>
                 (case JSON_parse w jobMessage of
                    None \<Rightarrow> (Rejected SyntaxError, st5)
                  | Some jm \<Rightarrow> runJob w cfg taskId jm st5)))"

text \<open>
  Step 0 (lines 387 to 392): the state of the run after the acquisition counter has
  answered \<open>totalAcq\<close>.
\<close>

definition warnIfAcquired :: "int \<Rightarrow> run \<Rightarrow> run" where
  "warnIfAcquired totalAcq st =
     (if totalAcq > 1 then emit (LoggerWarn ''Task was already acquired'') st else st)"

text \<open>\<^verbatim>\<open>handleJob(taskId, rcl)\<close> on the store \<open>s\<close>.\<close>

definition handleJob :: "world \<Rightarrow> config \<Rightarrow> string \<Rightarrow> store \<Rightarrow> js_val promise \<times> run" where
  "handleJob w cfg taskId s =
     (let st0 = \<lparr> db = s, numRetries = env_or (HF_VAR_NUMBER_OF_RETRIES cfg) 1,
                  trace = [], monitor = [] \<rparr>;
          st1 = rcl_sadd w ''hf_all_jobs'' (allJobsMember cfg taskId) st0
      in case acquireTask w taskId st1 of
           (Rejected e, st2) \<Rightarrow> (Rejected e, st2)
         | (Pending, st2) \<Rightarrow> (Pending, st2)
         | (Resolved totalAcq, st2) \<Rightarrow>
             checkCompletedAndRun w cfg taskId (warnIfAcquired totalAcq st2))"

subsection \<open>Reading a trace\<close>

fun is_spawn :: "event \<Rightarrow> bool" where
  "is_spawn (Spawn e a n) = True"
| "is_spawn _ = False"

fun is_notify :: "event \<Rightarrow> bool" where
  "is_notify (Notify t c) = True"
| "is_notify _ = False"

fun is_cmd :: "redis_cmd \<Rightarrow> event \<Rightarrow> bool" where
  "is_cmd c (Cmd c' k a) = (c = c')"
| "is_cmd c _ = False"

fun is_check :: "event \<Rightarrow> bool" where
  "is_check (CheckRound r) = True"
| "is_check _ = False"

text \<open>The spawns of the job process and the notifications of a run, in order.\<close>

definition spawns :: "run \<Rightarrow> event list" where
  "spawns st = filter is_spawn (trace st)"

definition notifications :: "run \<Rightarrow> event list" where
  "notifications st = filter is_notify (trace st)"

text \<open>What the job itself can see of a run: everything but the lines of the monitors.\<close>

definition job_view :: "run \<Rightarrow> store \<times> int \<times> event list" where
  "job_view st = (db st, numRetries st, trace st)"

subsection \<open>The run up to the completion check\<close>

text \<open>
  The state in which \<^verbatim>\<open>handleJob\<close> starts, the state after the \<^verbatim>\<open>sadd\<close> of line 50, and
  the state after a counter increment that the store has answered.
\<close>

definition run0 :: "config \<Rightarrow> store \<Rightarrow> run" where
  "run0 cfg s = \<lparr> db = s, numRetries = env_or (HF_VAR_NUMBER_OF_RETRIES cfg) 1, trace = [], monitor = [] \<rparr>"

definition registered :: "world \<Rightarrow> config \<Rightarrow> string \<Rightarrow> store \<Rightarrow> run" where
  "registered w cfg taskId s = rcl_sadd w ''hf_all_jobs'' (allJobsMember cfg taskId) (run0 cfg s)"

definition acquired :: "world \<Rightarrow> config \<Rightarrow> string \<Rightarrow> store \<Rightarrow> run" where
  "acquired w cfg taskId s =
     (let st1 = registered w cfg taskId s;
          key = taskId @ ''_acqCount'';
          n = counters (db st1) key + 1
      in warnIfAcquired n
           ((emit (Cmd INCR key []) st1)\<lparr> db := (db st1)\<lparr> counters := (counters (db st1))(key := n) \<rparr> \<rparr>))"

text \<open>The removals from the set of all jobs in a run.\<close>

definition srems :: "run \<Rightarrow> event list" where
  "srems st = filter (is_cmd SREM) (trace st)"

text \<open>
  The state after the message retrieval, and the state in which the job starts when it
  starts.
\<close>

definition retrieved :: "world \<Rightarrow> string \<Rightarrow> run \<Rightarrow> run" where
  "retrieved w t st = snd (getJobMessage w t 0 (emit (Cmd SISMEMBER (completedKey t) t) st))"

definition jobStart :: "world \<Rightarrow> config \<Rightarrow> jobmsg \<Rightarrow> run \<Rightarrow> run" where
  "jobStart w cfg jm st =
     (let st1 = snd (waitStep w cfg jm st)
      in if HF_VAR_ENABLE_NETHOGS cfg = Some ''1'' then emit SpawnNethogs st1 else st1)"

subsection \<open>A concrete world\<close>

text \<open>
  An empty store but for one message queued for the task \<^verbatim>\<open>task:wf1:0\<close>, a job that runs
  \<^verbatim>\<open>false\<close>, a world without failures where the process exits with 1, and an empty
  environment.
\<close>

definition store0 :: store where
  "store0 = \<lparr> counters = (\<lambda>k. 0), members = (\<lambda>k. {}),
              queue = (\<lambda>k. if k = ''task:wf1:0_msg'' then [''msg''] else []) \<rparr>"

definition job0 :: jobmsg where
  "job0 = \<lparr> jm_name = ''job'', executable = ''false'', args = Some [],
            inputs = Some [''in.dat''], outputs = Some [''out.dat''] \<rparr>"

definition telemetry0 :: telemetry where
  "telemetry0 = \<lparr> processCmdline = (\<lambda>p. Sample ''false''), samples = (\<lambda>k p. []) \<rparr>"

definition world0 :: world where
  "world0 = \<lparr> redis_err = (\<lambda>c. None), existsSync = (\<lambda>n f. True), JSON_parse = (\<lambda>m. Some job0),
              close_event = (\<lambda>a. Exit 1), Math_random = (\<lambda>a. d_one div 2),
              connector_notify = (\<lambda>t c s. (None, s)), pid_of = (\<lambda>a. 100 + a),
              pidtree = (\<lambda>a. []), procfs = telemetry0 \<rparr>"

definition config0 :: config where
  "config0 = \<lparr> HF_VAR_NUMBER_OF_RETRIES = None, HF_VAR_BACKOFF_SEED = None,
               HF_VAR_WAIT_FOR_INPUT_FILES = None, HF_VAR_FILE_WATCH_NUM_RETRIES = None,
               HF_VAR_ENABLE_NETHOGS = None, HF_LOG_NODE_NAME = None,
               HF_VAR_COLLOCATION_TYPE = None, HF_VAR_COLLOCATION_SIZE = None \<rparr>"

section \<open>Properties\<close>

subsection \<open>The backoff delay\<close>

text \<open>The length in binary.\<close>

lemma bits_0 [simp]: "bits 0 = 0"
  by (simp add: bits.simps)

lemma bits_pos: "0 < n \<Longrightarrow> bits n = Suc (bits (n div 2))"
  by (subst bits.simps) simp

lemma bits_bounds: "0 < n \<Longrightarrow> 2 ^ (bits n - 1) \<le> n \<and> n < 2 ^ bits n"
proof (induction n rule: bits.induct)
  case (1 n)
  show ?case
  proof (cases "n div 2 = 0")
    case True
    then have "n = 1" using "1.prems" by (simp add: div_eq_0_iff) 
    then show ?thesis by (simp add: bits_pos)
  next
    case False
    then have pos: "0 < n div 2" by simp
    have IH: "2 ^ (bits (n div 2) - 1) \<le> n div 2 \<and> n div 2 < 2 ^ bits (n div 2)"
      using "1.IH" "1.prems" pos by simp
    have b: "bits n = Suc (bits (n div 2))" using "1.prems" by (rule bits_pos)
    have bp: "0 < bits (n div 2)" using pos by (simp add: bits_pos)
    then obtain k where k: "bits (n div 2) = Suc k" by (cases "bits (n div 2)") auto
    from IH k have lo: "2 ^ k \<le> n div 2" and hi: "n div 2 < 2 ^ Suc k" by simp_all
    have "2 * 2 ^ k \<le> n" using lo by linarith
    moreover have "n < 2 * 2 ^ Suc k" using hi by linarith
    ultimately show ?thesis by (simp add: b k)
  qed
qed

lemma bits_lower: "0 < n \<Longrightarrow> 2 ^ (bits n - 1) \<le> n"
  using bits_bounds by blast

lemma bits_upper: "n < 2 ^ bits n"
  by (cases "n = 0") (simp_all add: bits_bounds)

lemma bits_le: "n < 2 ^ k \<Longrightarrow> bits n \<le> k"
proof (cases "n = 0")
  case True
  then show ?thesis by simp
next
  case False
  assume "n < 2 ^ k"
  with False bits_lower [of n] have "(2::nat) ^ (bits n - 1) < 2 ^ k" by linarith
  then have "bits n - 1 < k" by (simp add: power_strict_increasing_iff)
  then show ?thesis by simp
qed

lemma bits_gt: "2 ^ k \<le> n \<Longrightarrow> k < bits n"
proof -
  assume "2 ^ k \<le> n"
  with bits_upper [of n] have "(2::nat) ^ k < 2 ^ bits n" by linarith
  then show ?thesis by (simp add: power_strict_increasing_iff)
qed

lemma bits_eqI: "2 ^ k \<le> n \<Longrightarrow> n < 2 ^ Suc k \<Longrightarrow> bits n = Suc k"
  using bits_le [of n "Suc k"] bits_gt [of k n] by simp

lemma bits_mono: "m \<le> n \<Longrightarrow> bits m \<le> bits n"
proof -
  assume "m \<le> n"
  then have "m < 2 ^ bits n" using bits_upper [of n] by simp
  then show ?thesis by (rule bits_le)
qed

lemma bits_power: "bits (2 ^ k) = Suc k"
  by (rule bits_eqI) simp_all

lemma bits_times_power: "0 < n \<Longrightarrow> bits (n * 2 ^ k) = bits n + k"
proof -
  assume pos: "0 < n"
  then obtain j where j: "bits n = Suc j" using bits_gt [of 0 n] by (cases "bits n") auto
  have lo: "2 ^ j \<le> n" using bits_lower [OF pos] j by simp
  have hi: "n < 2 ^ Suc j" using bits_upper [of n] j by simp
  have "2 ^ (j + k) \<le> n * 2 ^ k" using lo by (simp add: power_add)
  moreover have "n * 2 ^ k < 2 ^ Suc (j + k)"
  proof -
    have "n * 2 ^ k < 2 ^ Suc j * 2 ^ k" using hi by simp
    then show ?thesis by (simp add: power_add)
  qed
  ultimately have "bits (n * 2 ^ k) = Suc (j + k)" by (rule bits_eqI)
  then show ?thesis by (simp add: j)
qed

text \<open>Rounding: the error is at most half of the last place, and Numbers are not moved.\<close>

lemma rne_div_range: "0 < d \<Longrightarrow> n div d \<le> rne_div n d \<and> rne_div n d \<le> n div d + 1"
  by (simp add: rne_div_def Let_def)

lemma rne_div_error: "0 < d \<Longrightarrow> 2 * (rne_div n d * d) \<le> 2 * n + d"
proof -
  assume d: "0 < d"
  have n: "n = n div d * d + n mod d" by simp
  show ?thesis
  proof (cases "2 * (n mod d) < d")
    case True
    then have e: "rne_div n d = n div d" by (simp add: rne_div_def Let_def)
    have "n div d * d \<le> n" by simp
    then have "2 * (n div d * d) \<le> 2 * n + d" by linarith
    then show ?thesis by (simp only: e)
  next
    case False
    then have "rne_div n d \<le> n div d + 1" using rne_div_range [OF d] by blast
    then have "rne_div n d * d \<le> (n div d + 1) * d" by (rule mult_le_mono1)
    also have "\<dots> = n div d * d + d" by simp
    finally have "2 * (rne_div n d * d) \<le> 2 * (n div d * d) + 2 * d" by simp
    also have "\<dots> \<le> 2 * (n div d * d) + 2 * (n mod d) + d" using False by simp
    also have "\<dots> = 2 * n + d" using n by (metis distrib_left)
    finally show ?thesis .
  qed
qed

lemma rne_div_exact: "0 < d \<Longrightarrow> d dvd n \<Longrightarrow> rne_div n d * d = n"
  by (auto simp add: rne_div_def Let_def)

lemma round53_error: "2 * round53 n \<le> 2 * n + 2 ^ (bits n - 53)"
  unfolding round53_def Let_def by (rule rne_div_error) simp

lemma round53_exact: "is_double n \<Longrightarrow> round53 n = n"
  unfolding round53_def Let_def is_double_def by (rule rne_div_exact) simp_all

lemma is_double_small: "bits n \<le> 53 \<Longrightarrow> is_double n"
  by (simp add: is_double_def)

lemma round53_dvd: "2 ^ (bits n - 53) dvd round53 n"
  by (simp add: round53_def Let_def)

lemma round53_range:
  assumes "53 < bits n"
  shows "2 ^ (bits n - 1) \<le> round53 n \<and> round53 n \<le> 2 ^ bits n"
proof -
  define s where "s = bits n - 53"
  define d :: nat where "d = 2 ^ s"
  have b: "bits n = s + 53" using assms by (simp add: s_def)
  have pos: "0 < n" using assms by (cases "n = 0") simp_all
  have d: "0 < d" by (simp add: d_def)
  have lo: "2 ^ 52 * d \<le> n"
    using bits_lower [OF pos] by (simp add: b d_def power_add mult.commute)
  have hi: "n < 2 ^ 53 * d"
    using bits_upper [of n] by (simp add: b d_def power_add mult.commute)
  have qlo: "2 ^ 52 \<le> n div d" using lo d by (simp add: less_eq_div_iff_mult_less_eq)
  have qhi: "n div d < 2 ^ 53" using hi d by (simp add: div_less_iff_less_mult)
  have r: "round53 n = rne_div n d * d" by (simp add: round53_def Let_def d_def s_def)
  have "2 ^ 52 \<le> rne_div n d" using qlo rne_div_range [OF d, of n] by linarith
  then have "2 ^ 52 * d \<le> rne_div n d * d" by (rule mult_le_mono1)
  moreover have "rne_div n d \<le> 2 ^ 53" using qhi rne_div_range [OF d, of n] by linarith
  then have "rne_div n d * d \<le> 2 ^ 53 * d" by (rule mult_le_mono1)
  ultimately show ?thesis by (simp add: r b d_def power_add mult.commute)
qed

lemma is_double_round53: "is_double (round53 n)"
proof (cases "53 < bits n")
  case False
  then have "is_double n" by (simp add: is_double_small)
  then show ?thesis by (simp add: round53_exact)
next
  case True
  then obtain j where j: "bits n = Suc j" by (cases "bits n") auto
  have rg: "2 ^ j \<le> round53 n" "round53 n \<le> 2 ^ Suc j"
    using round53_range [OF True] by (simp_all add: j)
  show ?thesis
  proof (cases "round53 n = 2 ^ Suc j")
    case True
    have "bits (2 ^ Suc j) = Suc (Suc j)" by (rule bits_power)
    moreover have "(2::nat) ^ (Suc (Suc j) - 53) dvd 2 ^ Suc j" by (rule le_imp_power_dvd) simp
    ultimately show ?thesis unfolding True is_double_def by simp
  next
    case False
    then have "round53 n < 2 ^ Suc j" using rg(2) by simp
    with rg(1) have "bits (round53 n) = Suc j" by (rule bits_eqI)
    then show ?thesis using round53_dvd [of n] by (simp add: is_double_def j)
  qed
qed

text \<open>Between a Number and a greater one lies the last place of the smaller.\<close>

lemma next_double:
  assumes a: "is_double a" and b: "is_double b" and lt: "a < b"
  shows "a + 2 ^ (bits a - 53) \<le> b"
proof -
  define d :: nat where "d = 2 ^ (bits a - 53)"
  have "bits a - 53 \<le> bits b - 53" using bits_mono [of a b] lt by simp
  then have "d dvd 2 ^ (bits b - 53)" by (simp add: d_def le_imp_power_dvd)
  then have db: "d dvd b" using b by (auto simp add: is_double_def intro: dvd_trans)
  have da: "d dvd a" using a by (simp add: is_double_def d_def)
  obtain i where i: "a = d * i" using da by (auto simp: dvd_def)
  obtain j where j: "b = d * j" using db by (auto simp: dvd_def)
  have dpos: "0 < d" by (simp add: d_def)
  have "i < j" using lt i j dpos by simp
  then have "i + 1 \<le> j" by simp
  then have "d * (i + 1) \<le> d * j" by (rule mult_le_mono2)
  then have "a + d \<le> b" by (simp add: i j)
  then show ?thesis by (simp add: d_def)
qed

lemma is_double_times_power: "is_double n \<Longrightarrow> is_double (n * 2 ^ k)"
proof (cases "n = 0")
  case True
  then show ?thesis by (simp add: is_double_def)
next
  case False
  assume n: "is_double n"
  have b: "bits (n * 2 ^ k) = bits n + k" using False by (simp add: bits_times_power)
  show ?thesis
  proof (cases "53 \<le> bits n")
    case True
    then have "bits n + k - 53 = (bits n - 53) + k" by simp
    then show ?thesis using n by (simp add: is_double_def b power_add mult_dvd_mono)
  next
    case False
    then have "bits n + k - 53 \<le> k" by simp
    then have "(2::nat) ^ (bits n + k - 53) dvd 2 ^ k" by (rule le_imp_power_dvd)
    then show ?thesis by (simp add: is_double_def b)
  qed
qed

lemma is_double_power: "is_double (2 ^ k)"
  using is_double_times_power [of 1 k] by (simp add: is_double_def bits_pos)

lemma d_one_pos: "0 < d_one"
  by (simp add: d_one_def)

lemma d_one_eq: "d_one = 2 ^ (1021 + 53)"
  by (simp add: d_one_def)

text \<open>A Number below a power of two is one last place below it.\<close>

lemma double_below_power:
  assumes "is_double r" and "r < 2 ^ (e + 53)"
  shows "r + 2 ^ e \<le> 2 ^ (e + 53)"
proof (cases "bits r \<le> e + 52")
  case True
  have "r < 2 ^ bits r" by (rule bits_upper)
  also have "(2::nat) ^ bits r \<le> 2 ^ (e + 52)" using True by (rule power_increasing) simp
  finally have "r < 2 ^ (e + 52)" .
  moreover have "(2::nat) ^ e \<le> 2 ^ (e + 52)" by (rule power_increasing) simp_all
  moreover have "(2::nat) ^ (e + 53) = 2 ^ (e + 52) + 2 ^ (e + 52)" by (simp add: power_add)
  ultimately show ?thesis by linarith
next
  case False
  moreover have "bits r \<le> e + 53" using assms(2) by (rule bits_le)
  ultimately have b: "bits r = e + 53" by simp
  have "is_double (2 ^ (e + 53))" by (rule is_double_power)
  with assms(1) have "r + 2 ^ (bits r - 53) \<le> 2 ^ (e + 53)"
    using assms(2) by (rule next_double)
  then show ?thesis by (simp add: b)
qed

text \<open>
  The first product: a draw below 1 times a positive seed gives, after rounding, a Number
  below the seed.
\<close>

lemma first_product_below:
  assumes r: "r + 2 ^ e \<le> 2 ^ (e + 53)" and S: "0 < S"
  shows "round53 (r * S) < S * 2 ^ (e + 53)"
proof -
  let ?x = "r * S"
  let ?B = "S * 2 ^ (e + 53)"
  have "r < 2 ^ (e + 53)"
  proof -
    have "(0::nat) < 2 ^ e" by simp
    with r show ?thesis by linarith
  qed
  then have "r * S < 2 ^ (e + 53) * S" using S by simp
  then have lt: "?x < ?B" by (simp add: mult.commute)
  show ?thesis
  proof (cases "bits ?x \<le> 53")
    case True
    then have "round53 ?x = ?x" by (simp add: round53_exact is_double_small)
    with lt show ?thesis by simp
  next
    case False
    then have pos: "0 < ?x" by (cases "?x = 0") simp_all
    define s where "s = bits ?x - 54"
    have s: "bits ?x = s + 54" using False by (simp add: s_def)
    have lo: "2 ^ (s + 53) \<le> ?x" using bits_lower [OF pos] by (simp add: s add.commute)
    have err: "2 * round53 ?x \<le> 2 * ?x + 2 * 2 ^ s" using round53_error [of ?x] by (simp add: s)
    have gap: "?x + S * 2 ^ e \<le> ?B"
    proof -
      have "(r + 2 ^ e) * S \<le> 2 ^ (e + 53) * S" using r by (rule mult_le_mono1)
      then show ?thesis by (simp add: algebra_simps)
    qed
    have "2 ^ (s + 53) < ?B" using lo lt by linarith
    then have "(2::nat) ^ s * 2 ^ 53 < (S * 2 ^ e) * 2 ^ 53"
      by (simp only: power_add mult.assoc)
    then have small: "(2::nat) ^ s < S * 2 ^ e" by (simp only: mult_less_cancel2)
    have "2 * round53 ?x < 2 * ?B" using err small gap by linarith
    then show ?thesis by simp
  qed
qed

text \<open>
  The second product: a Number below a bound \<open>B\<close>, times a factor \<open>f\<close> from 1 to 5, gives
  after rounding a Number below \<open>B * f\<close>.
\<close>

lemma second_product_below:
  assumes x: "is_double x" and b: "is_double B" and lt: "x < B"
    and f: "0 < f" and c: "f \<le> 2 ^ c" and cf: "2 ^ c < 2 * f"
  shows "round53 (x * f) < B * f"
proof -
  let ?y = "x * f"
  define g :: nat where "g = 2 ^ (bits x - 53)"
  have nx: "x + g \<le> B" unfolding g_def using x b lt by (rule next_double)
  have ylt: "?y < B * f" using lt f by simp
  show ?thesis
  proof (cases "bits ?y \<le> 53")
    case True
    then have "round53 ?y = ?y" by (simp add: round53_exact is_double_small)
    with ylt show ?thesis by simp
  next
    case False
    then have ypos: "0 < ?y" by (cases "?y = 0") simp_all
    then have xpos: "0 < x" by simp
    have "?y \<le> x * 2 ^ c" using c by simp
    then have "bits ?y \<le> bits (x * 2 ^ c)" by (rule bits_mono)
    then have bxc: "bits ?y \<le> bits x + c" using xpos by (simp add: bits_times_power)
    then have "bits ?y - 53 \<le> (bits x - 53) + c" by simp
    then have "(2::nat) ^ (bits ?y - 53) \<le> 2 ^ ((bits x - 53) + c)" by (rule power_increasing) simp
    then have e1: "(2::nat) ^ (bits ?y - 53) \<le> g * 2 ^ c" by (simp add: power_add g_def)
    have gpos: "0 < g" by (simp add: g_def)
    have "g * 2 ^ c < g * (2 * f)" using cf gpos by simp
    with e1 have "(2::nat) ^ (bits ?y - 53) < g * (2 * f)" by linarith
    then have small: "(2::nat) ^ (bits ?y - 53) < 2 * (g * f)" by (simp add: mult.left_commute)
    have "(x + g) * f \<le> B * f" using nx by (rule mult_le_mono1)
    then have gap: "?y + g * f \<le> B * f" by (simp add: algebra_simps)
    have "2 * round53 ?y \<le> 2 * ?y + 2 ^ (bits ?y - 53)" by (rule round53_error)
    then have "2 * round53 ?y < 2 * (B * f)" using small gap by linarith
    then show ?thesis by simp
  qed
qed

lemma factor_min: "factor a = int (min a 5)"
  by (simp add: factor_def min_def)

lemma factor_cases:
  assumes "1 \<le> a"
  obtains c where "0 < nat (factor a)" "nat (factor a) \<le> 2 ^ c" "2 ^ c < 2 * nat (factor a)"
proof -
  have m: "nat (factor a) = min a 5" by (simp add: factor_min)
  have "min a 5 = 1 \<or> min a 5 = 2 \<or> min a 5 = 3 \<or> min a 5 = 4 \<or> min a 5 = 5"
    using assms by (simp add: min_def) arith
  then consider "min a 5 = 1" | "min a 5 = 2" | "min a 5 = 3" | "min a 5 = 4" | "min a 5 = 5"
    by blast
  then show ?thesis
  proof cases
    case 1
    then show ?thesis using that [of 0] m by simp
  next
    case 2
    then show ?thesis using that [of 1] m by simp
  next
    case 3
    then show ?thesis using that [of 2] m by simp
  next
    case 4
    then show ?thesis using that [of 2] m by simp
  next
    case 5
    then show ?thesis using that [of 3] m by simp
  qed
qed

text \<open>Rounding commutes with a change of scale.\<close>

lemma rne_div_scale: "0 < c \<Longrightarrow> rne_div (n * c) (d * c) = rne_div n d"
  by (simp add: rne_div_def Let_def mult_mod_left [symmetric] mult.commute [of _ c]
      mult_mod_right [symmetric] mult.left_commute [of 2 c])

lemma round53_scale: "round53 (m * 2 ^ k) = round53 m * 2 ^ k"
proof (cases "bits m \<le> 53")
  case True
  then have d: "is_double m" by (rule is_double_small)
  then have "is_double (m * 2 ^ k)" by (rule is_double_times_power)
  with d show ?thesis by (simp add: round53_exact)
next
  case False
  then have pos: "0 < m" by (cases "m = 0") simp_all
  have b: "bits (m * 2 ^ k) - 53 = (bits m - 53) + k"
    using False by (simp add: bits_times_power [OF pos])
  have "round53 (m * 2 ^ k) =
      rne_div (m * 2 ^ k) (2 ^ (bits m - 53) * 2 ^ k) * (2 ^ (bits m - 53) * 2 ^ k)"
    by (simp add: round53_def Let_def b power_add)
  also have "rne_div (m * 2 ^ k) (2 ^ (bits m - 53) * 2 ^ k) = rne_div m (2 ^ (bits m - 53))"
    by (rule rne_div_scale) simp
  finally show ?thesis by (simp add: round53_def Let_def)
qed

lemma scaled_products: "round53 (m * 2 ^ e * S) = round53 (m * S) * 2 ^ e"
proof -
  have "(m * 2 ^ e) * S = (m * S) * 2 ^ e" by (simp add: mult.assoc mult.commute mult.left_commute)
  then show ?thesis by (simp only: round53_scale)
qed

lemma d_inf_eq: "d_inf = overflow * 2 ^ 53 * 2 ^ 1021"
  by (simp only: d_inf_def d_one_eq power_add mult.assoc mult.commute [of "2 ^ 1021"])

text \<open>
  The delay for a draw that is a multiple of \<open>2\<^sup>-\<^sup>5\<^sup>3\<close> and a seed that is not negative, with the
  scale taken out of the two products.
\<close>

lemma backoffDelay_scaled:
  assumes seed: "0 \<le> seed" and S: "round53 (nat seed) < overflow"
    and p1: "round53 (m * round53 (nat seed)) < overflow * 2 ^ 53"
    and p2: "round53 (round53 (m * round53 (nat seed)) * nat (factor a)) < overflow * 2 ^ 53"
  shows "backoffDelay (m * 2 ^ 1021) seed a =
         Some (int (round53 (round53 (m * round53 (nat seed)) * nat (factor a)) div 2 ^ 53))"
proof -
  define S where "S = round53 (nat seed)"
  define W1 where "W1 = round53 (m * S)"
  define W2 where "W2 = round53 (W1 * nat (factor a))"
  define u :: nat where "u = 2 ^ 1021"
  have upos: "0 < u" by (simp add: u_def)
  have e1: "round53 (m * u * S) = W1 * u"
    unfolding W1_def u_def by (rule scaled_products)
  have "W1 * u * nat (factor a) = W1 * nat (factor a) * u"
    by (simp add: mult.assoc mult.commute mult.left_commute)
  then have e2: "round53 (W1 * u * nat (factor a)) = W2 * u"
    unfolding W2_def u_def by (simp only: round53_scale)
  have di: "d_inf = overflow * 2 ^ 53 * u" unfolding u_def by (rule d_inf_eq)
  have d1: "d_one = 2 ^ 53 * u" unfolding u_def by (simp only: d_one_eq power_add mult.commute)
  have n1: "\<not> d_inf \<le> W1 * u" using p1 upos by (simp add: di W1_def S_def)
  have n2: "\<not> d_inf \<le> W2 * u" using p2 upos by (simp add: di W2_def W1_def S_def)
  have n0: "\<not> overflow \<le> S" using assms(2) by (simp add: S_def)
  have dv: "W2 * u div d_one = W2 div 2 ^ 53" using upos by (simp add: d1)
  have a: "nat \<bar>seed\<bar> = nat seed" using seed by simp
  have "backoffDelay (m * u) seed a = Some (int (W2 div 2 ^ 53))"
    unfolding backoffDelay_def Let_def a S_def [symmetric] e1 e2 using n0 n1 n2 seed
    by (simp add: dv)
  then show ?thesis by (simp only: u_def W2_def W1_def S_def)
qed

lemma round53_small: "n < 2 ^ 53 \<Longrightarrow> round53 n = n"
  by (simp add: round53_exact is_double_small bits_le)

lemma round53_eval:
  "2 ^ (k + 53) \<le> n \<Longrightarrow> n < 2 ^ (k + 54) \<Longrightarrow> round53 n = rne_div n (2 ^ Suc k) * 2 ^ Suc k"
proof -
  assume "2 ^ (k + 53) \<le> n" "n < 2 ^ (k + 54)"
  then have "bits n = Suc (k + 53)" by (intro bits_eqI) (simp_all add: add.commute)
  then show ?thesis by (simp add: round53_def Let_def)
qed

lemma small_overflow: "n < 2 ^ 128 \<Longrightarrow> n < overflow" "n < 2 ^ 128 \<Longrightarrow> n < overflow * 2 ^ 53"
proof -
  have "(2::nat) ^ 128 \<le> 2 ^ 1024" by (rule power_increasing) simp_all
  then have a: "2 ^ 128 \<le> overflow" by (simp only: overflow_def)
  then show "n < 2 ^ 128 \<Longrightarrow> n < overflow" by linarith
  have "overflow * 1 \<le> overflow * 2 ^ 53" by (intro mult_le_mono2) simp
  with a show "n < 2 ^ 128 \<Longrightarrow> n < overflow * 2 ^ 53" by linarith
qed

text \<open>
  C3.  For every attempt \<open>a \<ge> 1\<close>, every draw \<open>r\<close> of \<^verbatim>\<open>Math.random()\<close> (a Number that is at
  least 0 and less than 1) and every backoff seed that is a positive integer, is held exactly
  by a Number (as every positive integer below \<open>2\<^sup>5\<^sup>3\<close> is) and has
  \<open>seed * min a 5 < 2\<^sup>1\<^sup>0\<^sup>2\<^sup>4\<close>, the delay computed before the next spawn is an integer that is
  at least 0 and strictly less than \<open>seed * min a 5\<close>.
\<close>

theorem backoffDelay_bounds:
  assumes a: "1 \<le> a" and r: "is_double r" and r1: "r < d_one"
    and pos: "0 < seed" and rep: "is_double (nat seed)"
    and fin: "seed * int (min a 5) < int overflow"
  shows "\<exists>d. backoffDelay r seed a = Some d \<and> 0 \<le> d \<and> d < seed * int (min a 5)"
proof -
  define S where "S = nat seed"
  define f where "f = nat (factor a)"
  have Spos: "0 < S" using pos by (simp add: S_def)
  have conv: "round53 (nat \<bar>seed\<bar>) = S" using rep pos by (simp add: S_def round53_exact)
  obtain c where fc: "0 < f" "f \<le> 2 ^ c" "2 ^ c < 2 * f"
    unfolding f_def using a by (rule factor_cases)
  have fm: "int f = int (min a 5)" by (simp add: f_def factor_min)
  have "int (S * f) = seed * int (min a 5)" using pos fm by (simp add: S_def)
  with fin have Sf: "S * f < overflow" by (simp only: of_nat_less_iff)
  have "S \<le> S * f" using fc(1) by simp
  with Sf have S1: "S < overflow" by linarith
  define x where "x = round53 (r * S)"
  define p2 where "p2 = round53 (x * f)"
  have r2: "r < 2 ^ (1021 + 53)" using r1 by (simp only: d_one_eq)
  have x1: "x < S * d_one"
    unfolding x_def d_one_eq using double_below_power [OF r r2] Spos by (rule first_product_below)
  have "S * d_one \<le> overflow * d_one" using S1 by (intro mult_le_mono1) simp
  with x1 have x2: "x < d_inf" unfolding d_inf_def by linarith
  have xd: "is_double x" unfolding x_def by (rule is_double_round53)
  have "is_double S" using rep by (simp add: S_def)
  then have Bd: "is_double (S * d_one)"
    unfolding d_one_eq by (rule is_double_times_power)
  have "p2 < S * d_one * f"
    unfolding p2_def using xd Bd x1 fc by (rule second_product_below)
  then have p2lt: "p2 < (S * f) * d_one" by (simp only: mult.assoc mult.commute mult.left_commute)
  have "(S * f) * d_one \<le> overflow * d_one" using Sf by (intro mult_le_mono1) simp
  with p2lt have p3: "p2 < d_inf" unfolding d_inf_def by linarith
  from p2lt have "p2 div d_one < S * f"
    using d_one_pos by (simp only: div_less_iff_less_mult)
  then have "int (p2 div d_one) < int (S * f)" by (simp only: of_nat_less_iff)
  then have up: "int (p2 div d_one) < seed * int (min a 5)"
    using pos fm by (simp add: S_def)
  have d: "backoffDelay r seed a = Some (int (p2 div d_one))"
    using pos conv S1 x2 p3 by (simp add: backoffDelay_def Let_def p2_def x_def f_def)
  show ?thesis using up by (simp add: d)
qed

text \<open>
  Some delays.  The draw \<open>6305039478318694 * 2\<^sup>-\<^sup>5\<^sup>3\<close> is the Number nearest to 0.7,
  \<open>4503599627370496 * 2\<^sup>-\<^sup>5\<^sup>3\<close> is one half, and \<open>9007199254740991 * 2\<^sup>-\<^sup>5\<^sup>3\<close> the greatest Number
  below 1.
\<close>

lemma overflow_pos: "0 < overflow"
  by (simp only: overflow_def zero_less_power zero_less_numeral)

lemma d_inf_pos: "0 < d_inf"
  using overflow_pos d_one_pos by (simp add: d_inf_def)

lemma backoffDelay_seed_0: "backoffDelay r 0 a = Some 0"
proof -
  have z: "round53 0 = 0" by (simp add: round53_def rne_div_def)
  show ?thesis using overflow_pos d_inf_pos by (simp add: backoffDelay_def Let_def z)
qed

lemma backoffDelay_seed_overflow: "backoffDelay r (2 ^ 1024) a = None"
proof -
  have "nat \<bar>2 ^ 1024\<bar> = (2::nat) ^ 1024"
    by (simp only: power_abs abs_numeral nat_power_eq zero_le_numeral nat_numeral)
  then have n: "nat \<bar>2 ^ 1024\<bar> = overflow" by (simp only: overflow_def)
  have "is_double overflow" unfolding overflow_def by (rule is_double_power)
  then have "round53 overflow = overflow" by (rule round53_exact)
  then show ?thesis unfolding backoffDelay_def Let_def n by simp
qed

lemma ceil_exact: "0 < d \<Longrightarrow> (k * d + d - 1) div d = (k::nat)"
  by (rule div_nat_eqI) (simp_all add: mult.commute)

lemma is_double_scaled: "m < 2 ^ 53 \<Longrightarrow> is_double (m * 2 ^ e)"
  by (intro is_double_times_power is_double_small bits_le)

lemma scaled_below_one: "m < 2 ^ 53 \<Longrightarrow> m * 2 ^ 1021 < d_one"
  unfolding d_one_eq power_add by simp

lemma backoffDelay_half_neg: "backoffDelay (4503599627370496 * 2 ^ 1021) (- 10) 1 = Some (- 5)"
proof -
  define u :: nat where "u = 2 ^ 1021"
  have upos: "0 < u" by (simp only: u_def zero_less_power zero_less_numeral)
  have S: "round53 (nat \<bar>- 10\<bar>) = 10" by (simp add: round53_small)
  have five: "round53 45035996273704960 = 45035996273704960"
    using is_double_times_power [of 5 53] by (simp add: round53_exact is_double_small bits_le)
  have "4503599627370496 * u * 10 = 45035996273704960 * u" by simp
  then have e1: "round53 (4503599627370496 * u * 10) = 45035996273704960 * u"
    unfolding u_def by (simp only: round53_scale five)
  have "45035996273704960 * u * nat (factor 1) = 45035996273704960 * u" by (simp add: factor_def)
  then have e2: "round53 (45035996273704960 * u * nat (factor 1)) = 45035996273704960 * u"
    unfolding u_def by (simp only: round53_scale five)
  have d1: "d_one = 9007199254740992 * u"
    unfolding u_def d_one_eq power_add by simp
  have p: "45035996273704960 * u = 5 * d_one" by (simp add: d1)
  have "(45035996273704960::nat) < overflow * 2 ^ 53" by (rule small_overflow) simp
  then have "45035996273704960 * u < overflow * 2 ^ 53 * u"
    using upos by (simp only: mult_less_cancel2)
  then have n1: "\<not> d_inf \<le> 45035996273704960 * u"
    unfolding d_inf_eq u_def [symmetric] by simp
  have "(10::nat) < overflow" by (rule small_overflow) simp
  then have n0: "\<not> overflow \<le> 10" by simp
  have c: "(45035996273704960 * u + d_one - 1) div d_one = 5"
    unfolding p using d_one_pos by (rule ceil_exact)
  have "backoffDelay (4503599627370496 * u) (- 10) 1 = Some (- 5)"
    unfolding backoffDelay_def Let_def S e1 e2 using n0 n1 c by simp
  then show ?thesis by (simp only: u_def)
qed

lemma backoffDelay_large_seed:
  "backoffDelay (9007199254740991 * 2 ^ 1021) 18014398509481971 5 = Some 90071992547409856"
proof -
  have a: "round53 (nat 18014398509481971) = 18014398509481972"
    using round53_eval [of 0 "18014398509481971"] by (simp add: rne_div_def)
  have b: "round53 (9007199254740991 * 18014398509481972) = 162259276829213237290788443914240"
    using round53_eval [of 53 "9007199254740991 * 18014398509481972"] by (simp add: rne_div_def)
  have c: "round53 (162259276829213237290788443914240 * nat (factor 5)) =
      811296384146066240497137748017152"
    using round53_eval [of 56 "162259276829213237290788443914240 * 5"]
    by (simp add: rne_div_def factor_def)
  have "backoffDelay (9007199254740991 * 2 ^ 1021) 18014398509481971 5 =
      Some (int (round53 (round53 (9007199254740991 * round53 (nat 18014398509481971)) *
                            nat (factor 5)) div 2 ^ 53))"
    by (rule backoffDelay_scaled) (simp_all only: a b c, simp_all add: small_overflow)
  then show ?thesis by (simp only: a b c) simp
qed

lemma backoffDelay_seven: "backoffDelay (6305039478318694 * 2 ^ 1021) 10 1 = Some 7"
proof -
  have a: "round53 (nat 10) = 10" by (simp add: round53_small)
  have b: "round53 (6305039478318694 * 10) = 63050394783186944"
    using round53_eval [of 2 "6305039478318694 * 10"] by (simp add: rne_div_def)
  have c: "round53 (63050394783186944 * nat (factor 1)) = 63050394783186944"
    using round53_eval [of 2 "63050394783186944"] by (simp add: rne_div_def factor_def)
  have "backoffDelay (6305039478318694 * 2 ^ 1021) 10 1 =
      Some (int (round53 (round53 (6305039478318694 * round53 (nat 10)) * nat (factor 1)) div 2 ^ 53))"
    by (rule backoffDelay_scaled) (simp_all only: a b c, simp_all add: small_overflow)
  then show ?thesis by (simp only: a b c) simp
qed

text \<open>
  The draw nearest to 0.7, the seed 10 and the first attempt: the first product rounds up to
  7, and the delay is 7.
\<close>

theorem backoffDelay_bounds_witness:
  "is_double (6305039478318694 * 2 ^ 1021) \<and> 6305039478318694 * 2 ^ 1021 < d_one \<and>
   is_double (nat 10) \<and> 10 * int (min 1 5) < int overflow \<and>
   backoffDelay (6305039478318694 * 2 ^ 1021) 10 1 = Some 7 \<and>
   (\<exists>d. backoffDelay (6305039478318694 * 2 ^ 1021) 10 1 = Some d \<and>
        0 \<le> d \<and> d < 10 * int (min 1 5))"
proof -
  have r: "is_double (6305039478318694 * 2 ^ 1021)" by (rule is_double_scaled) simp
  have r1: "6305039478318694 * 2 ^ 1021 < d_one" by (rule scaled_below_one) simp
  have s: "is_double (nat 10)" by (simp add: is_double_small bits_le)
  have "(50::nat) < overflow" by (rule small_overflow) simp
  then have "int 50 < int overflow" by (simp only: of_nat_less_iff)
  then have f: "10 * int (min 1 5) < int overflow" by simp
  have "\<exists>d. backoffDelay (6305039478318694 * 2 ^ 1021) 10 1 = Some d \<and>
          0 \<le> d \<and> d < 10 * int (min 1 5)"
    using _ r r1 _ s f by (rule backoffDelay_bounds) simp_all
  with r r1 s f backoffDelay_seven show ?thesis by blast
qed

text \<open>
  C3 as stated fails, with the draw one half: for the seed 0 the delay is 0, which is not
  less than \<open>0 * min 1 5\<close>; for the seed \<open>- 10\<close> the delay is \<open>- 5\<close>, which is less than 0; for the
  seed \<open>2\<^sup>1\<^sup>0\<^sup>2\<^sup>4\<close> the delay is no integer.  It also fails for the seed \<open>18014398509481971\<close>,
  which no Number holds exactly, the greatest draw and the fifth attempt: the delay is
  \<open>90071992547409856\<close>, and \<open>18014398509481971 * 5 = 90071992547409855\<close>.
\<close>

theorem backoffDelay_counterexample:
  "is_double (4503599627370496 * 2 ^ 1021) \<and> 4503599627370496 * 2 ^ 1021 < d_one \<and>
   backoffDelay (4503599627370496 * 2 ^ 1021) 0 1 = Some 0 \<and> \<not> (0::int) < 0 * int (min 1 5) \<and>
   backoffDelay (4503599627370496 * 2 ^ 1021) (- 10) 1 = Some (- 5) \<and> \<not> (0::int) \<le> - 5 \<and>
   is_double (9007199254740991 * 2 ^ 1021) \<and> 9007199254740991 * 2 ^ 1021 < d_one \<and>
   backoffDelay (9007199254740991 * 2 ^ 1021) 18014398509481971 5 = Some 90071992547409856 \<and>
   \<not> (90071992547409856::int) < 18014398509481971 * int (min 5 5) \<and>
   backoffDelay (4503599627370496 * 2 ^ 1021) (2 ^ 1024) 1 = None"
proof -
  have r: "is_double (4503599627370496 * 2 ^ 1021)" by (rule is_double_scaled) simp
  have r1: "4503599627370496 * 2 ^ 1021 < d_one" by (rule scaled_below_one) simp
  have q: "is_double (9007199254740991 * 2 ^ 1021)" by (rule is_double_scaled) simp
  have q1: "9007199254740991 * 2 ^ 1021 < d_one" by (rule scaled_below_one) simp
  have n1: "\<not> (0::int) < 0 * int (min 1 5)" by simp
  have n2: "\<not> (0::int) \<le> - 5" by simp
  have n3: "\<not> (90071992547409856::int) < 18014398509481971 * int (min 5 5)" by simp
  from r r1 q q1 n1 n2 n3 backoffDelay_seed_0 [of "4503599627370496 * 2 ^ 1021" 1]
    backoffDelay_half_neg backoffDelay_large_seed
    backoffDelay_seed_overflow [of "4503599627370496 * 2 ^ 1021" 1]
  show ?thesis by blast
qed

subsection \<open>Waiting for input files\<close>

lemma filter_truthy_forEach:
  "filter_truthy (forEach_delete ex fs) = filter (\<lambda>f. \<not> ex f \<and> f \<noteq> []) fs"
  by (induction fs) (simp_all add: filter_truthy_def forEach_delete_def)

lemma checkFiles_unfold:
  "checkFiles ex m st =
     (if int (num_retries st) > m then (WaitRejected, st)
      else if filesToWatch (round_step ex st) = [] then (AllReady, round_step ex st)
      else checkFiles ex m (round_step ex st))"
  by (subst checkFiles.simps) (simp add: Let_def round_step_def filter_truthy_forEach)

lemma num_retries_round_step [simp]: "num_retries (round_step ex st) = Suc (num_retries st)"
  by (simp add: round_step_def)

lemma checkFiles_inv:
  assumes step: "\<And>st. P st \<Longrightarrow> int (num_retries st) \<le> m \<Longrightarrow> P (round_step ex st)"
  shows "P st \<Longrightarrow> P (snd (checkFiles ex m st))"
proof (induction "nat (m + 1 - int (num_retries st))" arbitrary: st)
  case 0
  then have "int (num_retries st) > m" by simp
  with 0 show ?case by (subst checkFiles_unfold) simp
next
  case (Suc k)
  show ?case
  proof (cases "int (num_retries st) > m")
    case True
    with Suc.prems show ?thesis by (subst checkFiles_unfold) simp
  next
    case False
    then have le: "int (num_retries st) \<le> m" by simp
    have P': "P (round_step ex st)" using step Suc.prems le by blast
    have k: "k = nat (m + 1 - int (num_retries (round_step ex st)))"
      using Suc.hyps(2) by simp
    show ?thesis
      using False P' Suc.hyps(1) [OF k P']
      by (subst checkFiles_unfold) simp
  qed
qed

text \<open>What the two results say about the final state.\<close>

lemma checkFiles_ready:
  "fst (checkFiles ex m st) = AllReady \<Longrightarrow> filesToWatch (snd (checkFiles ex m st)) = []"
proof (induction "nat (m + 1 - int (num_retries st))" arbitrary: st)
  case 0
  then have "int (num_retries st) > m" by simp
  with 0 show ?case by (simp add: checkFiles_unfold [of ex m st])
next
  case (Suc k)
  show ?case
  proof (cases "int (num_retries st) > m")
    case True
    with Suc.prems show ?thesis by (simp add: checkFiles_unfold [of ex m st])
  next
    case False
    have k: "k = nat (m + 1 - int (num_retries (round_step ex st)))"
      using Suc.hyps(2) by simp
    show ?thesis
    proof (cases "filesToWatch (round_step ex st) = []")
      case True
      with False show ?thesis by (simp add: checkFiles_unfold [of ex m st])
    next
      case ne: False
      with False Suc.prems Suc.hyps(1) [OF k] show ?thesis
        by (simp add: checkFiles_unfold [of ex m st])
    qed
  qed
qed

lemma checkFiles_rejected:
  "int (num_retries st) \<le> m \<Longrightarrow> fst (checkFiles ex m st) = WaitRejected \<Longrightarrow>
   filesToWatch (snd (checkFiles ex m st)) \<noteq> [] \<and> int (num_retries (snd (checkFiles ex m st))) = m + 1"
proof (induction "nat (m + 1 - int (num_retries st))" arbitrary: st)
  case 0
  then show ?case by simp
next
  case (Suc k)
  have k: "k = nat (m + 1 - int (num_retries (round_step ex st)))"
    using Suc.hyps(2) by simp
  show ?case
  proof (cases "filesToWatch (round_step ex st) = []")
    case True
    with Suc.prems show ?thesis by (simp add: checkFiles_unfold [of ex m st])
  next
    case ne: False
    show ?thesis
    proof (cases "int (num_retries (round_step ex st)) \<le> m")
      case True
      with ne Suc.prems Suc.hyps(1) [OF k True] show ?thesis
        by (simp add: checkFiles_unfold [of ex m st])
    next
      case False
      then have "int (num_retries st) = m" using Suc.prems(1) by simp
      with ne False Suc.prems show ?thesis
        by (simp add: checkFiles_unfold [of ex m st] checkFiles_unfold [of ex m "round_step ex st"])
    qed
  qed
qed

text \<open>When no watched file ever exists, every round finds the same list.\<close>

lemma round_step_never:
  assumes "\<forall>f\<in>set (filesToWatch st). \<not> ex (num_retries st) f" and "[] \<notin> set (filesToWatch st)"
  shows "round_step ex st = st\<lparr> num_retries := Suc (num_retries st),
            rounds := rounds st @ [map (\<lambda>f. (f, False)) (filesToWatch st)] \<rparr>"
proof -
  have a: "filter (ex (num_retries st)) (filesToWatch st) = []"
    using assms(1) by (simp add: filter_empty_conv)
  have b: "filter (\<lambda>f. \<not> ex (num_retries st) f \<and> f \<noteq> []) (filesToWatch st) = filesToWatch st"
    using assms by (intro filter_True) auto
  have c: "map (\<lambda>f. (f, ex (num_retries st) f)) (filesToWatch st) = map (\<lambda>f. (f, False)) (filesToWatch st)"
    using assms(1) by (intro map_cong) auto
  show ?thesis by (simp add: round_step_def a b c)
qed

lemma checkFiles_never:
  assumes "\<forall>n. \<forall>f\<in>set files. \<not> ex n f" and "[] \<notin> set files" and "files \<noteq> []"
  shows "filesToWatch st = files \<Longrightarrow> int (num_retries st) \<le> m + 1 \<Longrightarrow>
         checkFiles ex m st =
           (WaitRejected, st\<lparr> num_retries := nat (m + 1),
               rounds := rounds st @ replicate (nat (m + 1) - num_retries st) (map (\<lambda>f. (f, False)) files) \<rparr>)"
proof (induction "nat (m + 1 - int (num_retries st))" arbitrary: st)
  case 0
  then have "int (num_retries st) = m + 1" by simp
  then have *: "num_retries st = nat (m + 1)" "int (num_retries st) > m" by simp_all
  show ?case by (subst checkFiles_unfold) (simp add: *)
next
  case (Suc k)
  have le: "int (num_retries st) \<le> m" using Suc.hyps(2) by simp
  have rs: "round_step ex st = st\<lparr> num_retries := Suc (num_retries st),
            rounds := rounds st @ [map (\<lambda>f. (f, False)) files] \<rparr>"
    using round_step_never [of st ex] assms Suc.prems(1) by simp
  have k: "k = nat (m + 1 - int (num_retries (round_step ex st)))"
    using Suc.hyps(2) by simp
  have w: "filesToWatch (round_step ex st) = files" using rs Suc.prems(1) by simp
  have b: "int (num_retries (round_step ex st)) \<le> m + 1" using le by simp
  have rep: "nat (m + 1) - num_retries st = Suc (nat (m + 1) - Suc (num_retries st))"
    using le by simp
  show ?case
    using le w assms(3) Suc.hyps(1) [OF k w b]
    by (subst checkFiles_unfold) (simp add: rs rep)
qed

lemma closed_form_init:
  "closed_form ex files \<lparr> filesToWatch = files, filesReady = [], num_retries = 0, rounds = [] \<rparr>"
  by (simp add: closed_form_def)

lemma closed_form_step: "closed_form ex files st \<Longrightarrow> closed_form ex files (round_step ex st)"
  by (simp add: closed_form_def round_step_def)

lemma waitForInputs_closed_form: "closed_form ex files (snd (waitForInputs ex files m))"
  unfolding waitForInputs_def
  by (rule checkFiles_inv [where P = "closed_form ex files"]) (simp_all add: closed_form_step closed_form_init)





text \<open>
  C4, as the code has it.  For every file list and every \<open>max_retries \<ge> 0\<close> the wait ends,
  and in exactly one of two ways: it succeeds if and only if the watched list has become
  empty, and it is rejected if and only if the watched list is not empty and the round
  counter has passed the budget (it is \<open>max_retries + 1\<close>).  The number of executed rounds
  is the round counter.  When the list is not empty, holds no empty name, and none of
  its files ever exists, the wait is rejected after exactly \<open>max_retries + 1\<close> rounds, each
  of which checks every file.
\<close>

theorem waitForInputs_outcome:
  assumes "0 \<le> m"
  shows "(fst (waitForInputs ex files m) = AllReady \<longleftrightarrow>
            filesToWatch (snd (waitForInputs ex files m)) = []) \<and>
         (fst (waitForInputs ex files m) = WaitRejected \<longleftrightarrow>
            filesToWatch (snd (waitForInputs ex files m)) \<noteq> [] \<and>
            int (num_retries (snd (waitForInputs ex files m))) = m + 1) \<and>
         length (checkRounds ex files m) = num_retries (snd (waitForInputs ex files m)) \<and>
         (files \<noteq> [] \<and> [] \<notin> set files \<and> (\<forall>n. \<forall>f\<in>set files. \<not> ex n f) \<longrightarrow>
            fst (waitForInputs ex files m) = WaitRejected \<and>
            checkRounds ex files m = replicate (nat (m + 1)) (map (\<lambda>f. (f, False)) files))"
proof -
  let ?st0 = "\<lparr> filesToWatch = files, filesReady = [], num_retries = 0, rounds = [] \<rparr>"
  let ?r = "waitForInputs ex files m"
  have r: "?r = checkFiles ex m ?st0" by (simp add: waitForInputs_def)
  have le: "int (num_retries ?st0) \<le> m" using assms by simp
  have ready: "fst ?r = AllReady \<Longrightarrow> filesToWatch (snd ?r) = []"
    unfolding r by (rule checkFiles_ready)
  have rej: "fst ?r = WaitRejected \<Longrightarrow>
               filesToWatch (snd ?r) \<noteq> [] \<and> int (num_retries (snd ?r)) = m + 1"
    unfolding r by (rule checkFiles_rejected [OF le])
  have ex2: "fst ?r = AllReady \<or> fst ?r = WaitRejected" by (cases "fst ?r") simp_all
  have a: "fst ?r = AllReady \<longleftrightarrow> filesToWatch (snd ?r) = []"
    using ready rej ex2 by blast
  have b: "fst ?r = WaitRejected \<longleftrightarrow>
             filesToWatch (snd ?r) \<noteq> [] \<and> int (num_retries (snd ?r)) = m + 1"
    using ready rej ex2 by auto
  have c: "length (checkRounds ex files m) = num_retries (snd ?r)"
    using waitForInputs_closed_form [of ex files m] by (simp add: closed_form_def checkRounds_def)
  have d: "files \<noteq> [] \<and> [] \<notin> set files \<and> (\<forall>n. \<forall>f\<in>set files. \<not> ex n f) \<longrightarrow>
            fst ?r = WaitRejected \<and>
            checkRounds ex files m = replicate (nat (m + 1)) (map (\<lambda>f. (f, False)) files)"
  proof
    assume h: "files \<noteq> [] \<and> [] \<notin> set files \<and> (\<forall>n. \<forall>f\<in>set files. \<not> ex n f)"
    have "checkFiles ex m ?st0 = (WaitRejected, ?st0\<lparr> num_retries := nat (m + 1),
               rounds := rounds ?st0
                 @ replicate (nat (m + 1) - num_retries ?st0) (map (\<lambda>f. (f, False)) files) \<rparr>)"
      using h assms by (intro checkFiles_never) simp_all
    then show "fst ?r = WaitRejected \<and>
               checkRounds ex files m = replicate (nat (m + 1)) (map (\<lambda>f. (f, False)) files)"
      by (simp add: r checkRounds_def)
  qed
  show ?thesis using a b c d by blast
qed

text \<open>Two files that never exist and a budget of 2: rejected after three rounds.\<close>

theorem waitForInputs_outcome_witness:
  "(0::int) \<le> 2 \<and> [''a'', ''b''] \<noteq> [] \<and> [] \<notin> set [''a'', ''b''] \<and>
   fst (waitForInputs (\<lambda>n f. False) [''a'', ''b''] 2) = WaitRejected \<and>
   length (checkRounds (\<lambda>n f. False) [''a'', ''b''] 2) = 3"
  using waitForInputs_outcome [of 2 "\<lambda>n f. False" "[''a'', ''b'']"] by simp

text \<open>
  C4 as stated fails: a file whose name is the empty string never exists, yet the filter
  of line 323 drops it from the watched list, and the wait succeeds in its first round;
  so does the wait for no file at all.
\<close>

theorem waitForInputs_falsy_counterexample:
  "fst (waitForInputs (\<lambda>n f. False) [''''] 3) = AllReady \<and>
   checkRounds (\<lambda>n f. False) [''''] 3 = [[('''', False)]] \<and>
   fst (waitForInputs (\<lambda>n f. False) [] 3) = AllReady \<and>
   checkRounds (\<lambda>n f. False) [] 3 = [[]]"
  by (simp add: checkRounds_def waitForInputs_def checkFiles_unfold round_step_def)

subsection \<open>Facts about one attempt and about the retries\<close>

lemma emit_simps [simp]:
  "trace (emit e st) = trace st @ [e]" "db (emit e st) = db st"
  "numRetries (emit e st) = numRetries st" "monitor (emit e st) = monitor st"
  by (simp_all add: emit_def)

lemma spawnAttempt_simps [simp]:
  "trace (spawnAttempt w t jm a st) = trace st @ [Spawn (executable jm) (args jm) a]"
  "db (spawnAttempt w t jm a st) = db st"
  "numRetries (spawnAttempt w t jm a st) = numRetries st - 1"
  by (simp_all add: spawnAttempt_def Let_def)

lemma spawns_emit [simp]: "spawns (emit e st) = (if is_spawn e then spawns st @ [e] else spawns st)"
  by (simp add: spawns_def)

lemma notifications_emit [simp]:
  "notifications (emit e st) = (if is_notify e then notifications st @ [e] else notifications st)"
  by (simp add: notifications_def)

lemma spawns_spawnAttempt [simp]:
  "spawns (spawnAttempt w t jm a st) = spawns st @ [Spawn (executable jm) (args jm) a]"
  by (simp add: spawns_def)

lemma notifications_spawnAttempt [simp]:
  "notifications (spawnAttempt w t jm a st) = notifications st"
  by (simp add: notifications_def)

lemma rcl_srem_simps [simp]:
  "numRetries (rcl_srem w k m st) = numRetries st"
  "spawns (rcl_srem w k m st) = spawns st"
  "notifications (rcl_srem w k m st) = notifications st"
  by (simp_all add: rcl_srem_def spawns_def notifications_def Let_def split: option.splits)

lemma spawns_db_update [simp]: "spawns (st\<lparr> db := s \<rparr>) = spawns st"
  by (simp add: spawns_def)

lemma notifications_db_update [simp]: "notifications (st\<lparr> db := s \<rparr>) = notifications st"
  by (simp add: notifications_def)

lemma notifyAndFinish_spawns [simp]:
  "spawns (snd (notifyAndFinish w t m jm c st)) = spawns st"
  by (simp add: notifyAndFinish_def Let_def split: prod.splits option.splits)

lemma notifyAndFinish_notifications [simp]:
  "notifications (snd (notifyAndFinish w t m jm c st)) = notifications st @ [Notify t c]"
  by (simp add: notifyAndFinish_def Let_def split: prod.splits option.splits)


text \<open>The four ways an attempt goes on.\<close>

lemma executeJob_hangs:
  "close_event w a = Hangs \<Longrightarrow>
   executeJob w t m seed jm a st = (Pending, spawnAttempt w t jm a st)"
  by (subst executeJob.simps) (simp add: Let_def)

lemma executeJob_no_args:
  "close_event w a \<noteq> Hangs \<Longrightarrow> close_code (close_event w a) \<noteq> Num 0 \<Longrightarrow> args jm = None \<Longrightarrow>
   executeJob w t m seed jm a st = (Pending, emit (Unhandled TypeError) (spawnAttempt w t jm a st))"
  by (subst executeJob.simps) (simp add: Let_def)

lemma executeJob_retry:
  "close_event w a \<noteq> Hangs \<Longrightarrow> close_code (close_event w a) \<noteq> Num 0 \<Longrightarrow> args jm \<noteq> None \<Longrightarrow>
   1 < numRetries st \<Longrightarrow>
   executeJob w t m seed jm a st =
     (Pending, snd (executeJob w t m seed jm (Suc a)
        (emit (Backoff (backoffDelay (Math_random w a) seed a)) (spawnAttempt w t jm a st))))"
  by (subst executeJob.simps) (auto simp add: Let_def)

lemma executeJob_final:
  "close_event w a \<noteq> Hangs \<Longrightarrow>
   close_code (close_event w a) = Num 0 \<or> (args jm \<noteq> None \<and> numRetries st \<le> 1) \<Longrightarrow>
   executeJob w t m seed jm a st =
     notifyAndFinish w t m jm (close_code (close_event w a)) (spawnAttempt w t jm a st)"
  by (subst executeJob.simps) (auto simp add: Let_def)

lemma executeJob_branches [case_names hangs no_args retry final]:
  assumes "close_event w a = Hangs \<Longrightarrow> R"
    and "\<lbrakk>close_event w a \<noteq> Hangs; close_code (close_event w a) \<noteq> Num 0; args jm = None\<rbrakk> \<Longrightarrow> R"
    and "\<lbrakk>close_event w a \<noteq> Hangs; close_code (close_event w a) \<noteq> Num 0; args jm \<noteq> None;
          1 < numRetries st\<rbrakk> \<Longrightarrow> R"
    and "\<lbrakk>close_event w a \<noteq> Hangs;
          close_code (close_event w a) = Num 0 \<or> (args jm \<noteq> None \<and> numRetries st \<le> 1)\<rbrakk> \<Longrightarrow> R"
  shows R
  using assms by (cases "close_event w a = Hangs"; cases "close_code (close_event w a) = Num 0";
     cases "args jm = None"; cases "1 < numRetries st") auto


text \<open>
  An attempt and its retries spawn at most \<open>max 1 numRetries\<close> processes: the counter
  goes down before the first spawn already.
\<close>
lemma executeJob_spawns_le:
  "length (spawns (snd (executeJob w t m seed jm a st))) \<le> length (spawns st) + nat (max 1 (numRetries st))"
proof (induction w t m seed jm a st rule: executeJob.induct)
  case (1 w t m seed jm a st)
  show ?case
  proof (cases rule: executeJob_branches [where w = w and a = a and jm = jm and st = st])
    case hangs
    then show ?thesis by (simp add: executeJob_hangs)
  next
    case no_args
    then show ?thesis by (simp add: executeJob_no_args)
  next
    case retry
    let ?st4 = "emit (Backoff (backoffDelay (Math_random w a) seed a)) (spawnAttempt w t jm a st)"
    have "length (spawns (snd (executeJob w t m seed jm (a + 1) ?st4)))
            \<le> length (spawns ?st4) + nat (max 1 (numRetries ?st4))"
      by (rule "1.IH" [OF refl refl]) (use retry in auto)
    with retry show ?thesis by (simp add: executeJob_retry)
  next
    case final
    then show ?thesis by (simp add: executeJob_final)
  qed
qed

text \<open>They notify the completion once at most.\<close>
lemma executeJob_notifications_le:
  "notifications (snd (executeJob w t m seed jm a st)) = notifications st \<or>
   (\<exists>c. notifications (snd (executeJob w t m seed jm a st)) = notifications st @ [Notify t c])"
proof (induction w t m seed jm a st rule: executeJob.induct)
  case (1 w t m seed jm a st)
  show ?case
  proof (cases rule: executeJob_branches [where w = w and a = a and jm = jm and st = st])
    case hangs
    then show ?thesis by (simp add: executeJob_hangs)
  next
    case no_args
    then show ?thesis by (simp add: executeJob_no_args)
  next
    case retry
    let ?st4 = "emit (Backoff (backoffDelay (Math_random w a) seed a)) (spawnAttempt w t jm a st)"
    have "notifications (snd (executeJob w t m seed jm (a + 1) ?st4)) = notifications ?st4 \<or>
       (\<exists>c. notifications (snd (executeJob w t m seed jm (a + 1) ?st4)) = notifications ?st4 @ [Notify t c])"
      by (rule "1.IH" [OF refl refl]) (use retry in auto)
    with retry show ?thesis by (simp add: executeJob_retry)
  next
    case final
    then show ?thesis by (simp add: executeJob_final)
  qed
qed

text \<open>
  A command that never exits with 0 is spawned exactly \<open>max 1 numRetries\<close> times, and the
  one notification carries the code of the last attempt.
\<close>
lemma executeJob_always_failing:
  assumes fail: "\<forall>a. close_event w a \<noteq> Exit 0 \<and> close_event w a \<noteq> Hangs" and args: "args jm \<noteq> None"
  shows "length (spawns (snd (executeJob w t m seed jm a st))) = length (spawns st) + nat (max 1 (numRetries st)) \<and>
         notifications (snd (executeJob w t m seed jm a st)) =
           notifications st @ [Notify t (close_code (close_event w (a + nat (max 1 (numRetries st)) - 1)))]"
  using assms
proof (induction w t m seed jm a st rule: executeJob.induct)
  case (1 w t m seed jm a st)
  have nz: "close_code (close_event w b) \<noteq> Num 0" for b
    using "1.prems"(1) by (cases "close_event w b") (auto simp: close_code_def)
  have nh: "close_event w b \<noteq> Hangs" for b using "1.prems"(1) by simp
  show ?case
  proof (cases "1 < numRetries st")
    case True
    let ?st4 = "emit (Backoff (backoffDelay (Math_random w a) seed a)) (spawnAttempt w t jm a st)"
    have IH: "length (spawns (snd (executeJob w t m seed jm (a + 1) ?st4))) =
              length (spawns ?st4) + nat (max 1 (numRetries ?st4)) \<and>
         notifications (snd (executeJob w t m seed jm (a + 1) ?st4)) =
           notifications ?st4 @ [Notify t (close_code (close_event w (a + 1 + nat (max 1 (numRetries ?st4)) - 1)))]"
      by (rule "1.IH" [OF refl refl]) (use True nz nh "1.prems" in auto)
    have idx: "a + 1 + nat (max 1 (numRetries st - 1)) - 1 = a + nat (max 1 (numRetries st)) - 1"
      using True by (simp add: max_def nat_diff_distrib)
    have cnt: "Suc (nat (max 1 (numRetries st - 1))) = nat (max 1 (numRetries st))"
      using True by (simp add: max_def)
    from IH show ?thesis
      using True nz nh "1.prems"(2) idx cnt by (simp add: executeJob_retry)
  next
    case False
    then have "nat (max 1 (numRetries st)) = 1" by (simp add: max_def)
    with False nz nh "1.prems"(2) show ?thesis by (simp add: executeJob_final)
  qed
qed

subsection \<open>Runs in the concrete world\<close>

lemmas world0_defs = world0_def config0_def store0_def job0_def telemetry0_def

lemmas run_defs = handleJob_def checkCompletedAndRun_def runJob_def waitStep_def rcl_sadd_def rcl_srem_def
  acquireTask_def hasCompleted_def getJobMessage_def warnIfAcquired_def notifyAndFinish_def emit_def
  redis_sadd_def redis_srem_def redis_incr_def redis_sismember_def redis_rpoplpush_def
  env_or_def close_code_def completedKey_def wfId_def js_str_def allJobsMember_def
  spawnAttempt_def logProcInfo_def

text \<open>
  C1, at the failing input.  The claim promises \<open>R + 1\<close> spawns for a retry count \<open>R\<close> and a
  command that always fails.  With \<^verbatim>\<open>HF_VAR_NUMBER_OF_RETRIES=1\<close> and a command that always
  exits with 1 the run spawns the process once, and with the value 2 twice; each run
  sends one notification, with the code 1.
\<close>

theorem executeJob_retry_count_off_by_one:
  "spawns (snd (handleJob world0 (config0\<lparr> HF_VAR_NUMBER_OF_RETRIES := Some 1 \<rparr>) ''task:wf1:0'' store0))
     = [Spawn ''false'' (Some []) 1] \<and>
   notifications (snd (handleJob world0 (config0\<lparr> HF_VAR_NUMBER_OF_RETRIES := Some 1 \<rparr>) ''task:wf1:0'' store0))
     = [Notify ''task:wf1:0'' (Num 1)] \<and>
   spawns (snd (handleJob world0 (config0\<lparr> HF_VAR_NUMBER_OF_RETRIES := Some 2 \<rparr>) ''task:wf1:0'' store0))
     = [Spawn ''false'' (Some []) 1, Spawn ''false'' (Some []) 2] \<and>
   notifications (snd (handleJob world0 (config0\<lparr> HF_VAR_NUMBER_OF_RETRIES := Some 2 \<rparr>) ''task:wf1:0'' store0))
     = [Notify ''task:wf1:0'' (Num 1)]"
  by (simp add: run_defs world0_defs spawns_def notifications_def executeJob.simps Let_def)

text \<open>
  C7, at the failing input.  The job exits with 0 and the notification fails with the
  error \<^verbatim>\<open>down\<close>.  The error is logged and thrown inside the close listener, where it is
  an unhandled rejection; the promise of \<^verbatim>\<open>handleJob\<close> stays pending, so the caller of
  the run never gets the error.  The sibling path, an error of the message retrieval,
  does reject the run.
\<close>

theorem notification_failure_not_raised:
  "fst (handleJob (world0\<lparr> close_event := (\<lambda>a. Exit 0), connector_notify := (\<lambda>t c s. (Some ''down'', s)) \<rparr>)
      config0 ''task:wf1:0'' store0) = Pending \<and>
   trace (snd (handleJob (world0\<lparr> close_event := (\<lambda>a. Exit 0), connector_notify := (\<lambda>t c s. (Some ''down'', s)) \<rparr>)
      config0 ''task:wf1:0'' store0)) =
     [Cmd SADD ''hf_all_jobs'' ''task:wf1:0#undefined#undefined#undefined'',
      Cmd INCR ''task:wf1:0_acqCount'' [],
      Cmd SISMEMBER ''wf:wf1:completedTasks'' ''task:wf1:0'',
      Cmd BRPOPLPUSH ''task:wf1:0_msg'' ''task:wf1:0_msg'',
      Spawn ''false'' (Some []) 1,
      Notify ''task:wf1:0'' (Num 0),
      Console ''Redis notification failed'',
      LoggerError ''Redis notification failed: down'',
      Unhandled (NotifyError ''down'')] \<and>
   fst (handleJob (world0\<lparr> redis_err := (\<lambda>c. if c = BRPOPLPUSH then Some ''down'' else None) \<rparr>)
      config0 ''task:wf1:0'' store0) = Rejected (RedisError ''down'')"
  by (simp add: run_defs world0_defs executeJob.simps Let_def)

subsection \<open>Retrieving the job message\<close>

text \<open>
  C8.  A successful retrieval pops the last element of the list under the key
  \<^verbatim>\<open>taskId_msg\<close> and pushes that same value at the front of the list under the same key.
  Afterwards the list still contains the retrieved message and holds the same messages
  as before, each as often as before (the message has moved from the right end to the
  left end, so a list of one message is unchanged); no other list, no counter and no set
  of the store changes.
\<close>

theorem getJobMessage_nondestructive:
  assumes "getJobMessage w taskId timeout st = (Resolved (Some msg), st')"
  shows "queue (db st) (taskId @ ''_msg'') \<noteq> [] \<and>
         msg = last (queue (db st) (taskId @ ''_msg'')) \<and>
         queue (db st') (taskId @ ''_msg'') = msg # butlast (queue (db st) (taskId @ ''_msg'')) \<and>
         mset (queue (db st') (taskId @ ''_msg'')) = mset (queue (db st) (taskId @ ''_msg'')) \<and>
         msg \<in> set (queue (db st') (taskId @ ''_msg'')) \<and>
         (\<forall>k. k \<noteq> taskId @ ''_msg'' \<longrightarrow> queue (db st') k = queue (db st) k) \<and>
         counters (db st') = counters (db st) \<and> members (db st') = members (db st) \<and>
         (length (queue (db st) (taskId @ ''_msg'')) = 1 \<longrightarrow> db st' = db st)"
proof -
  let ?key = "taskId @ ''_msg''"
  let ?q = "queue (db st) ?key"
  from assms have ne: "?q \<noteq> []"
    by (auto simp: getJobMessage_def redis_rpoplpush_def Let_def split: option.splits list.splits if_splits)
  then obtain x xs where q: "?q = x # xs" by (cases ?q) auto
  from assms q have msg: "msg = last ?q"
    and db': "db st' = (db st)\<lparr> queue := (queue (db st))(?key := last ?q # butlast ?q) \<rparr>"
    by (auto simp: getJobMessage_def redis_rpoplpush_def Let_def split: option.splits)
  have "mset ?q = mset (butlast ?q @ [last ?q])" using ne by simp
  also have "\<dots> = mset (last ?q # butlast ?q)" by simp
  finally have rot: "mset (last ?q # butlast ?q) = mset ?q" by simp
  have one: "length ?q = 1 \<longrightarrow> last ?q # butlast ?q = ?q"
    by (cases ?q) auto
  have same: "length ?q = 1 \<longrightarrow> db st' = db st"
  proof
    assume "length ?q = 1"
    with one have "last ?q # butlast ?q = ?q" by blast
    then have "(queue (db st))(?key := last ?q # butlast ?q) = queue (db st)" by (metis fun_upd_triv)
    then show "db st' = db st" by (simp add: db')
  qed
  show ?thesis using ne msg rot same by (simp add: db')
qed

text \<open>A queue of two messages: the retrieval returns the right one and rotates the list.\<close>

theorem getJobMessage_nondestructive_witness:
  "getJobMessage world0 ''task:wf1:0'' 0
       \<lparr> db = store0\<lparr> queue := (queue store0)(''task:wf1:0_msg'' := [''m1'', ''m2'']) \<rparr>, numRetries = 1, trace = [], monitor = [] \<rparr>
     = (Resolved (Some ''m2''),
        \<lparr> db = store0\<lparr> queue := (queue store0)(''task:wf1:0_msg'' := [''m2'', ''m1'']) \<rparr>, numRetries = 1,
          trace = [Cmd BRPOPLPUSH ''task:wf1:0_msg'' ''task:wf1:0_msg''], monitor = [] \<rparr>) \<and>
   mset [''m2'', ''m1''] = mset [''m1'', ''m2'']"
  using getJobMessage_nondestructive [of world0 "''task:wf1:0''" 0
      "\<lparr> db = store0\<lparr> queue := (queue store0)(''task:wf1:0_msg'' := [''m1'', ''m2'']) \<rparr>, numRetries = 1, trace = [], monitor = [] \<rparr>"
      "''m2''"
      "\<lparr> db = store0\<lparr> queue := (queue store0)(''task:wf1:0_msg'' := [''m2'', ''m1'']) \<rparr>, numRetries = 1,
          trace = [Cmd BRPOPLPUSH ''task:wf1:0_msg'' ''task:wf1:0_msg''], monitor = [] \<rparr>"]
  by (simp add: run_defs world0_defs Let_def)

subsection \<open>The steps before the job runs\<close>

text \<open>The calls on the client, by the answer of the store.\<close>

lemma rcl_sadd_trace:
  "trace (rcl_sadd w k m st) =
     trace st @ Cmd SADD k m # (case redis_err w SADD of Some e \<Rightarrow> [Console e] | None \<Rightarrow> [])"
  by (simp add: rcl_sadd_def Let_def split: option.splits)

lemma rcl_sadd_db:
  "db (rcl_sadd w k m st) =
     (case redis_err w SADD of Some e \<Rightarrow> db st | None \<Rightarrow> redis_sadd k m (db st))"
  by (simp add: rcl_sadd_def Let_def split: option.splits)

lemma rcl_sadd_rest [simp]:
  "numRetries (rcl_sadd w k m st) = numRetries st" "monitor (rcl_sadd w k m st) = monitor st"
  by (simp_all add: rcl_sadd_def Let_def split: option.splits)

lemma rcl_sadd_members: "x \<in> members (db st) k' \<Longrightarrow> x \<in> members (db (rcl_sadd w k m st)) k'"
  by (auto simp add: rcl_sadd_db redis_sadd_def split: option.splits)

lemma acquireTask_ok:
  "redis_err w INCR = None \<Longrightarrow>
   acquireTask w t st =
     (Resolved (counters (db st) (t @ ''_acqCount'') + 1),
      (emit (Cmd INCR (t @ ''_acqCount'') []) st)
        \<lparr> db := (db st)\<lparr> counters := (counters (db st))
             (t @ ''_acqCount'' := counters (db st) (t @ ''_acqCount'') + 1) \<rparr> \<rparr>)"
  by (simp add: acquireTask_def redis_incr_def Let_def)

lemma acquireTask_err:
  "redis_err w INCR = Some e \<Longrightarrow>
   acquireTask w t st = (Rejected (RedisError e), emit (Cmd INCR (t @ ''_acqCount'') []) st)"
  by (simp add: acquireTask_def Let_def)

lemma hasCompleted_ok:
  "redis_err w SISMEMBER = None \<Longrightarrow>
   hasCompleted w t st =
     (Resolved (t \<in> members (db st) (completedKey t)), emit (Cmd SISMEMBER (completedKey t) t) st)"
  by (simp add: hasCompleted_def redis_sismember_def Let_def)

lemma hasCompleted_err:
  "redis_err w SISMEMBER = Some e \<Longrightarrow>
   hasCompleted w t st = (Rejected (RedisError e), emit (Cmd SISMEMBER (completedKey t) t) st)"
  by (simp add: hasCompleted_def Let_def)

lemma warnIfAcquired_simps [simp]:
  "db (warnIfAcquired n st) = db st" "numRetries (warnIfAcquired n st) = numRetries st"
  "monitor (warnIfAcquired n st) = monitor st"
  "trace (warnIfAcquired n st) =
     trace st @ (if 1 < n then [LoggerWarn ''Task was already acquired''] else [])"
  by (simp_all add: warnIfAcquired_def)

lemma handleJob_acquire_err:
  "redis_err w INCR = Some e \<Longrightarrow>
   handleJob w cfg taskId s =
     (Rejected (RedisError e), emit (Cmd INCR (taskId @ ''_acqCount'') []) (registered w cfg taskId s))"
  by (simp add: handleJob_def registered_def run0_def acquireTask_err Let_def)

lemma handleJob_acquire_ok:
  "redis_err w INCR = None \<Longrightarrow>
   handleJob w cfg taskId s = checkCompletedAndRun w cfg taskId (acquired w cfg taskId s)"
  by (simp add: handleJob_def registered_def acquired_def run0_def acquireTask_ok Let_def)

lemma registered_simps:
  "trace (registered w cfg taskId s) =
     Cmd SADD ''hf_all_jobs'' (allJobsMember cfg taskId)
       # (case redis_err w SADD of Some e \<Rightarrow> [Console e] | None \<Rightarrow> [])"
  "members (db (registered w cfg taskId s)) =
     (case redis_err w SADD of
        Some e \<Rightarrow> members s
      | None \<Rightarrow> (members s)(''hf_all_jobs'' := insert (allJobsMember cfg taskId) (members s ''hf_all_jobs'')))"
  "counters (db (registered w cfg taskId s)) = counters s"
  "queue (db (registered w cfg taskId s)) = queue s"
  "numRetries (registered w cfg taskId s) = env_or (HF_VAR_NUMBER_OF_RETRIES cfg) 1"
  "monitor (registered w cfg taskId s) = []"
  by (simp_all add: registered_def run0_def rcl_sadd_trace rcl_sadd_db redis_sadd_def split: option.splits)

lemma acquired_simps:
  "trace (acquired w cfg taskId s) =
     trace (registered w cfg taskId s) @ Cmd INCR (taskId @ ''_acqCount'') []
       # (if 1 < counters s (taskId @ ''_acqCount'') + 1 then [LoggerWarn ''Task was already acquired''] else [])"
  "members (db (acquired w cfg taskId s)) = members (db (registered w cfg taskId s))"
  "counters (db (acquired w cfg taskId s)) =
     (counters s)(taskId @ ''_acqCount'' := counters s (taskId @ ''_acqCount'') + 1)"
  "queue (db (acquired w cfg taskId s)) = queue s"
  "numRetries (acquired w cfg taskId s) = env_or (HF_VAR_NUMBER_OF_RETRIES cfg) 1"
  "monitor (acquired w cfg taskId s) = []"
  by (simp_all add: acquired_def Let_def registered_simps)

lemma checkCompleted_done:
  "redis_err w SISMEMBER = None \<Longrightarrow> taskId \<in> members (db st) (completedKey taskId) \<Longrightarrow>
   checkCompletedAndRun w cfg taskId st =
     (Resolved Undefined,
      emit (LoggerWarn ''Warning: unexpected restart of job'')
        (emit (Cmd SISMEMBER (completedKey taskId) taskId) st))"
  by (simp add: checkCompletedAndRun_def hasCompleted_ok)

lemma checkCompleted_err:
  "redis_err w SISMEMBER = Some e \<Longrightarrow>
   checkCompletedAndRun w cfg taskId st =
     (Rejected (RedisError e), emit (Cmd SISMEMBER (completedKey taskId) taskId) st)"
  by (simp add: checkCompletedAndRun_def hasCompleted_err)

text \<open>
  C2.  When the task id is in the set of completed tasks of its workflow, a run spawns no
  process, sends no notification, retrieves no message and checks no input file,
  whatever the collaborators do; and when the store answers the counter increment and
  the membership test, the run returns at once (it resolves with \<^verbatim>\<open>undefined\<close>).
\<close>

theorem handleJob_already_completed:
  assumes "taskId \<in> members s (completedKey taskId)"
  shows "spawns (snd (handleJob w cfg taskId s)) = [] \<and>
         notifications (snd (handleJob w cfg taskId s)) = [] \<and>
         filter (is_cmd BRPOPLPUSH) (trace (snd (handleJob w cfg taskId s))) = [] \<and>
         filter is_check (trace (snd (handleJob w cfg taskId s))) = [] \<and>
         (redis_err w INCR = None \<and> redis_err w SISMEMBER = None \<longrightarrow>
            fst (handleJob w cfg taskId s) = Resolved Undefined)"
proof (cases "redis_err w INCR")
  case (Some e)
  then show ?thesis
    by (simp add: handleJob_acquire_err spawns_def notifications_def registered_simps split: option.splits)
next
  case None
  have mem: "taskId \<in> members (db (acquired w cfg taskId s)) (completedKey taskId)"
    using assms by (auto simp add: acquired_simps registered_simps split: option.splits)
  show ?thesis
  proof (cases "redis_err w SISMEMBER")
    case (Some e)
    with None show ?thesis
      by (simp add: handleJob_acquire_ok checkCompleted_err spawns_def notifications_def
          acquired_simps registered_simps split: option.splits)
  next
    case sis: None
    with None mem show ?thesis
      by (simp add: handleJob_acquire_ok checkCompleted_done spawns_def notifications_def
          acquired_simps registered_simps split: option.splits)
  qed
qed

text \<open>The task \<^verbatim>\<open>task:wf1:0\<close> in a store where it is marked as completed.\<close>

theorem handleJob_already_completed_witness:
  "''task:wf1:0'' \<in> members (store0\<lparr> members := (\<lambda>k. {''task:wf1:0''}) \<rparr>) (completedKey ''task:wf1:0'') \<and>
   fst (handleJob world0 config0 ''task:wf1:0'' (store0\<lparr> members := (\<lambda>k. {''task:wf1:0''}) \<rparr>)) =
     Resolved Undefined \<and>
   trace (snd (handleJob world0 config0 ''task:wf1:0'' (store0\<lparr> members := (\<lambda>k. {''task:wf1:0''}) \<rparr>))) =
     [Cmd SADD ''hf_all_jobs'' ''task:wf1:0#undefined#undefined#undefined'',
      Cmd INCR ''task:wf1:0_acqCount'' [],
      Cmd SISMEMBER ''wf:wf1:completedTasks'' ''task:wf1:0'',
      LoggerWarn ''Warning: unexpected restart of job'']"
  using handleJob_already_completed [of "''task:wf1:0''" "store0\<lparr> members := (\<lambda>k. {''task:wf1:0''}) \<rparr>" world0 config0]
  by (simp add: run_defs world0_defs Let_def)

subsection \<open>The trace of a run\<close>

lemma srems_emit [simp]: "srems (emit e st) = (if is_cmd SREM e then srems st @ [e] else srems st)"
  by (simp add: srems_def)

lemma srems_spawnAttempt [simp]: "srems (spawnAttempt w t jm a st) = srems st"
  by (simp add: srems_def)

text \<open>The trace only grows.\<close>

lemma prefix_emit: "prefix (trace st) (trace (emit e st))"
  by simp

lemma prefix_spawnAttempt: "prefix (trace st) (trace (spawnAttempt w t jm a st))"
  by simp

lemma rcl_srem_trace:
  "trace (rcl_srem w k m st) =
     trace st @ Cmd SREM k m # (case redis_err w SREM of Some e \<Rightarrow> [Console e] | None \<Rightarrow> [])"
  by (simp add: rcl_srem_def Let_def split: option.splits)

lemma notifyAndFinish_trace:
  "trace (snd (notifyAndFinish w t m jm c st)) =
     trace st @ Notify t c #
       (case fst (connector_notify w t c (db st)) of
          Some e \<Rightarrow> [Console ''Redis notification failed'',
                     LoggerError (''Redis notification failed: '' @ e), Unhandled (NotifyError e)]
        | None \<Rightarrow>
            if inputs jm = None \<or> outputs jm = None then [Unhandled TypeError]
            else Cmd SREM ''hf_all_jobs'' m
                   # (case redis_err w SREM of Some e \<Rightarrow> [Console e] | None \<Rightarrow> []))"
  by (simp add: notifyAndFinish_def Let_def rcl_srem_trace split: prod.splits option.splits)


lemma prefix_notifyAndFinish: "prefix (trace st) (trace (snd (notifyAndFinish w t m jm c st)))"
  by (simp add: notifyAndFinish_trace)

lemma prefix_executeJob: "prefix (trace st) (trace (snd (executeJob w t m seed jm a st)))"
proof (induction w t m seed jm a st rule: executeJob.induct)
  case (1 w t m seed jm a st)
  show ?case
  proof (cases rule: executeJob_branches [where w = w and a = a and jm = jm and st = st])
    case hangs
    then show ?thesis by (simp add: executeJob_hangs)
  next
    case no_args
    then show ?thesis by (simp add: executeJob_no_args)
  next
    case retry
    let ?st4 = "emit (Backoff (backoffDelay (Math_random w a) seed a)) (spawnAttempt w t jm a st)"
    have "prefix (trace ?st4) (trace (snd (executeJob w t m seed jm (a + 1) ?st4)))"
      by (rule "1.IH" [OF refl refl]) (use retry in auto)
    moreover have "prefix (trace st) (trace ?st4)" by simp
    ultimately have "prefix (trace st) (trace (snd (executeJob w t m seed jm (a + 1) ?st4)))"
      by (rule prefix_order.trans [rotated])
    with retry show ?thesis by (simp add: executeJob_retry)
  next
    case final
    have "prefix (trace st) (trace (spawnAttempt w t jm a st))" by simp
    then have "prefix (trace st)
       (trace (snd (notifyAndFinish w t m jm (close_code (close_event w a)) (spawnAttempt w t jm a st))))"
      using prefix_notifyAndFinish prefix_order.trans by blast
    with final show ?thesis by (simp add: executeJob_final)
  qed
qed




lemma waitStep_trace: "\<exists>rs. trace (snd (waitStep w cfg jm st)) = trace st @ map CheckRound rs"
proof (cases "inputs jm")
  case None
  then have "trace (snd (waitStep w cfg jm st)) = trace st @ map CheckRound []"
    by (simp add: waitStep_def)
  then show ?thesis by blast
next
  case (Some files)
  show ?thesis
  proof (cases "HF_VAR_WAIT_FOR_INPUT_FILES cfg = Some ''1'' \<and> files \<noteq> []")
    case True
    with Some have "trace (snd (waitStep w cfg jm st)) =
        trace st @ map CheckRound (rounds (snd (waitForInputs (existsSync w) files
                                (env_or (HF_VAR_FILE_WATCH_NUM_RETRIES cfg) 10))))"
      by (simp add: waitStep_def Let_def split: prod.splits)
    then show ?thesis by blast
  next
    case False
    with Some have "trace (snd (waitStep w cfg jm st)) = trace st @ map CheckRound []"
      by (auto simp add: waitStep_def)
    then show ?thesis by blast
  qed
qed

lemma waitStep_rest [simp]:
  "db (snd (waitStep w cfg jm st)) = db st"
  "numRetries (snd (waitStep w cfg jm st)) = numRetries st"
  "monitor (snd (waitStep w cfg jm st)) = monitor st"
  by (simp_all add: waitStep_def Let_def split: option.splits prod.splits)

lemma filter_CheckRound [simp]:
  "filter is_spawn (map CheckRound rs) = []" "filter is_notify (map CheckRound rs) = []"
  "filter (is_cmd c) (map CheckRound rs) = []"
  by (induction rs) simp_all

lemma waitStep_quiet [simp]:
  "spawns (snd (waitStep w cfg jm st)) = spawns st"
  "notifications (snd (waitStep w cfg jm st)) = notifications st"
  "srems (snd (waitStep w cfg jm st)) = srems st"
  using waitStep_trace [of w cfg jm st]
  by (auto simp add: spawns_def notifications_def srems_def)

lemma prefix_waitStep: "prefix (trace st) (trace (snd (waitStep w cfg jm st)))"
  using waitStep_trace [of w cfg jm st] by auto

lemma jobStart_simps [simp]:
  "db (jobStart w cfg jm st) = db st"
  "numRetries (jobStart w cfg jm st) = numRetries st"
  "monitor (jobStart w cfg jm st) = monitor st"
  "spawns (jobStart w cfg jm st) = spawns st"
  "notifications (jobStart w cfg jm st) = notifications st"
  "srems (jobStart w cfg jm st) = srems st"
  by (simp_all add: jobStart_def Let_def)

lemma prefix_jobStart: "prefix (trace st) (trace (jobStart w cfg jm st))"
  using prefix_waitStep [of st w cfg jm] by (auto simp add: jobStart_def Let_def prefix_def)

lemma runJob_cases:
  "runJob w cfg t jm st = (Rejected WaitError, snd (waitStep w cfg jm st)) \<or>
   runJob w cfg t jm st = (Rejected TypeError, jobStart w cfg jm st) \<or>
   runJob w cfg t jm st =
     executeJob w t (allJobsMember cfg t) (env_or (HF_VAR_BACKOFF_SEED cfg) 10) jm 1 (jobStart w cfg jm st)"
  by (cases "waitStep w cfg jm st"; cases "fst (waitStep w cfg jm st)")
     (auto simp add: runJob_def jobStart_def Let_def)


lemma prefix_runJob: "prefix (trace st) (trace (snd (runJob w cfg t jm st)))"
proof -
  have a: "prefix (trace st) (trace (snd (waitStep w cfg jm st)))" by (rule prefix_waitStep)
  have b: "prefix (trace st) (trace (jobStart w cfg jm st))" by (rule prefix_jobStart)
  have c: "prefix (trace st) (trace (snd (executeJob w t (allJobsMember cfg t)
              (env_or (HF_VAR_BACKOFF_SEED cfg) 10) jm 1 (jobStart w cfg jm st))))"
    using b prefix_executeJob prefix_order.trans by blast
  show ?thesis using runJob_cases [of w cfg t jm st] a b c by auto
qed


lemma getJobMessage_trace:
  "trace (snd (getJobMessage w t timeout st)) = trace st @ [Cmd BRPOPLPUSH (t @ ''_msg'') (t @ ''_msg'')]"
  by (simp add: getJobMessage_def Let_def split: option.splits prod.splits)

lemma getJobMessage_rest:
  "members (db (snd (getJobMessage w t timeout st))) = members (db st)"
  "counters (db (snd (getJobMessage w t timeout st))) = counters (db st)"
  "numRetries (snd (getJobMessage w t timeout st)) = numRetries st"
  "monitor (snd (getJobMessage w t timeout st)) = monitor st"
  by (simp_all add: getJobMessage_def redis_rpoplpush_def Let_def split: option.splits prod.splits list.splits)

lemma retrieved_simps:
  "trace (retrieved w t st) =
     trace st @ [Cmd SISMEMBER (completedKey t) t, Cmd BRPOPLPUSH (t @ ''_msg'') (t @ ''_msg'')]"
  "members (db (retrieved w t st)) = members (db st)"
  "counters (db (retrieved w t st)) = counters (db st)"
  "numRetries (retrieved w t st) = numRetries st"
  "monitor (retrieved w t st) = monitor st"
  by (simp_all add: retrieved_def getJobMessage_trace getJobMessage_rest)

lemma retrieved_quiet [simp]:
  "spawns (retrieved w t st) = spawns st"
  "notifications (retrieved w t st) = notifications st"
  "srems (retrieved w t st) = srems st"
  by (simp_all add: spawns_def notifications_def srems_def retrieved_simps)

lemma checkCompleted_cases [case_names sis_err completed get_err stuck run]:
  obtains (sis_err) e where
      "checkCompletedAndRun w cfg t st = (Rejected e, emit (Cmd SISMEMBER (completedKey t) t) st)"
    | (completed)
      "checkCompletedAndRun w cfg t st =
         (Resolved Undefined, emit (LoggerWarn ''Warning: unexpected restart of job'')
            (emit (Cmd SISMEMBER (completedKey t) t) st))"
    | (get_err) e where
      "checkCompletedAndRun w cfg t st =
         (Rejected e, emit (LoggerError ''getJobMessage'') (emit (Console ''getJobMessage'') (retrieved w t st)))"
    | (stuck) p where "p = Pending \<or> p = Rejected TypeError \<or> p = Rejected SyntaxError"
      "checkCompletedAndRun w cfg t st = (p, retrieved w t st)"
    | (run) jm where "checkCompletedAndRun w cfg t st = runJob w cfg t jm (retrieved w t st)"
proof (cases "redis_err w SISMEMBER")
  case (Some e)
  then show ?thesis using sis_err by (simp add: checkCompleted_err)
next
  case None
  let ?st1 = "emit (Cmd SISMEMBER (completedKey t) t) st"
  show ?thesis
  proof (cases "t \<in> members (db st) (completedKey t)")
    case True
    with None show ?thesis using completed by (simp add: checkCompleted_done)
  next
    case False
    with None have eq: "checkCompletedAndRun w cfg t st =
       (case getJobMessage w t 0 ?st1 of
               (Rejected e, st5) \<Rightarrow>
                 (Rejected e, emit (LoggerError ''getJobMessage'') (emit (Console ''getJobMessage'') st5))
             | (Pending, st5) \<Rightarrow> (Pending, st5)
             | (Resolved None, st5) \<Rightarrow> (Rejected TypeError, st5)
             | (Resolved (Some jobMessage), st5) \<Rightarrow>
                 (case JSON_parse w jobMessage of
                    None \<Rightarrow> (Rejected SyntaxError, st5)
                  | Some jm \<Rightarrow> runJob w cfg t jm st5))"
      by (simp add: checkCompletedAndRun_def hasCompleted_ok)
    obtain p st5 where g: "getJobMessage w t 0 ?st1 = (p, st5)" by (cases "getJobMessage w t 0 ?st1")
    then have r: "retrieved w t st = st5" by (simp add: retrieved_def)
    show ?thesis
    proof (cases p)
      case (Resolved v)
      show ?thesis
      proof (cases v)
        case None
        with Resolved g r eq show ?thesis using stuck [of "Rejected TypeError"] by simp
      next
        case (Some msg)
        show ?thesis
        proof (cases "JSON_parse w msg")
          case None
          with Some Resolved g r eq show ?thesis using stuck [of "Rejected SyntaxError"] by simp
        next
          case (Some jm)
          with \<open>v = Some msg\<close> Resolved g r eq show ?thesis using run [of jm] by simp
        qed
      qed
    next
      case (Rejected e)
      with g r eq show ?thesis using get_err [of e] by simp
    next
      case Pending
      with g r eq show ?thesis using stuck [of Pending] by simp
    qed
  qed
qed

lemma checkCompleted_first:
  "prefix (trace st @ [Cmd SISMEMBER (completedKey t) t]) (trace (snd (checkCompletedAndRun w cfg t st)))"
proof (cases rule: checkCompleted_cases [of w cfg t st])
  case (sis_err e)
  then show ?thesis by simp
next
  case completed
  then show ?thesis by simp
next
  case (get_err e)
  then show ?thesis by (simp add: retrieved_simps)
next
  case (stuck p)
  then show ?thesis by (simp add: retrieved_simps)
next
  case (run jm)
  have "prefix (trace (retrieved w t st)) (trace (snd (runJob w cfg t jm (retrieved w t st))))"
    by (rule prefix_runJob)
  moreover have "prefix (trace st @ [Cmd SISMEMBER (completedKey t) t]) (trace (retrieved w t st))"
    by (simp add: retrieved_simps)
  ultimately show ?thesis unfolding run using prefix_order.trans by blast
qed



subsection \<open>Acquisition and the set of all jobs\<close>

text \<open>
  C9, as the code has it.  When the store answers the counter increment with a count, the
  run goes on to the completion check: between the \<^verbatim>\<open>incr\<close> and the \<^verbatim>\<open>sismember\<close> it logs one
  warning when the count is greater than 1 and nothing otherwise, and of the state it
  changes the counter alone (no set, no list, no retry budget).
\<close>

theorem acquire_only_warns:
  assumes "redis_err w INCR = None"
  shows "handleJob w cfg taskId s = checkCompletedAndRun w cfg taskId (acquired w cfg taskId s) \<and>
         trace (acquired w cfg taskId s) =
           trace (registered w cfg taskId s) @ Cmd INCR (taskId @ ''_acqCount'') []
             # (if 1 < counters s (taskId @ ''_acqCount'') + 1
                then [LoggerWarn ''Task was already acquired''] else []) \<and>
         counters (db (acquired w cfg taskId s)) =
           (counters s)(taskId @ ''_acqCount'' := counters s (taskId @ ''_acqCount'') + 1) \<and>
         members (db (acquired w cfg taskId s)) = members (db (registered w cfg taskId s)) \<and>
         queue (db (acquired w cfg taskId s)) = queue s \<and>
         numRetries (acquired w cfg taskId s) = numRetries (registered w cfg taskId s) \<and>
         prefix (trace (acquired w cfg taskId s) @ [Cmd SISMEMBER (completedKey taskId) taskId])
           (trace (snd (handleJob w cfg taskId s)))"
  using assms checkCompleted_first [of "acquired w cfg taskId s" taskId w cfg]
  by (simp add: handleJob_acquire_ok acquired_simps registered_simps)

text \<open>A task whose counter stands at 3: the count 4 is answered, and warned about.\<close>

theorem acquire_only_warns_witness:
  "redis_err world0 INCR = None \<and>
   prefix (trace (acquired world0 config0 ''task:wf1:0'' (store0\<lparr> counters := (\<lambda>k. 3) \<rparr>))
             @ [Cmd SISMEMBER (completedKey ''task:wf1:0'') ''task:wf1:0''])
     (trace (snd (handleJob world0 config0 ''task:wf1:0'' (store0\<lparr> counters := (\<lambda>k. 3) \<rparr>)))) \<and>
   trace (acquired world0 config0 ''task:wf1:0'' (store0\<lparr> counters := (\<lambda>k. 3) \<rparr>)) =
     [Cmd SADD ''hf_all_jobs'' ''task:wf1:0#undefined#undefined#undefined'',
      Cmd INCR ''task:wf1:0_acqCount'' [],
      LoggerWarn ''Task was already acquired'']"
proof -
  have h: "redis_err world0 INCR = None" by (simp add: world0_def)
  have t: "trace (acquired world0 config0 ''task:wf1:0'' (store0\<lparr> counters := (\<lambda>k. 3) \<rparr>)) =
     [Cmd SADD ''hf_all_jobs'' ''task:wf1:0#undefined#undefined#undefined'',
      Cmd INCR ''task:wf1:0_acqCount'' [],
      LoggerWarn ''Task was already acquired'']"
    by (simp add: acquired_simps registered_simps world0_def config0_def allJobsMember_def js_str_def)
  from acquire_only_warns [OF h, of config0 "''task:wf1:0''" "store0\<lparr> counters := (\<lambda>k. 3) \<rparr>"]
  have "prefix (trace (acquired world0 config0 ''task:wf1:0'' (store0\<lparr> counters := (\<lambda>k. 3) \<rparr>))
             @ [Cmd SISMEMBER (completedKey ''task:wf1:0'') ''task:wf1:0''])
     (trace (snd (handleJob world0 config0 ''task:wf1:0'' (store0\<lparr> counters := (\<lambda>k. 3) \<rparr>))))"
    by blast
  with h t show ?thesis by blast
qed

text \<open>
  C9 as stated fails: when the counter increment answers with an error, the run is
  rejected with that error and never reaches the completion check.
\<close>

theorem acquire_error_counterexample:
  "fst (handleJob (world0\<lparr> redis_err := (\<lambda>c. if c = INCR then Some ''ECONNREFUSED'' else None) \<rparr>)
      config0 ''task:wf1:0'' store0) = Rejected (RedisError ''ECONNREFUSED'') \<and>
   trace (snd (handleJob (world0\<lparr> redis_err := (\<lambda>c. if c = INCR then Some ''ECONNREFUSED'' else None) \<rparr>)
      config0 ''task:wf1:0'' store0)) =
     [Cmd SADD ''hf_all_jobs'' ''task:wf1:0#undefined#undefined#undefined'',
      Cmd INCR ''task:wf1:0_acqCount'' []]"
  by (simp add: run_defs world0_defs Let_def)



subsection \<open>The process monitors\<close>

lemma logProcIO_samples:
  "logProcIO t pid (map Sample ds @ rest) =
     (concat (map (\<lambda>d. [LoggerInfo IO pid d, PushToGateway t]) ds) @ fst (logProcIO t pid rest),
      snd (logProcIO t pid rest))"
  by (induction ds) (simp_all add: split_beta)

lemma logProcNetDev_samples:
  "logProcNetDev pid (map Sample ds @ rest) =
     (map (LoggerInfo NetDev pid) ds @ fst (logProcNetDev pid rest), snd (logProcNetDev pid rest))"
  by (induction ds) (simp_all add: split_beta)

lemma logPidUsage_samples:
  "logPidUsage pid (map Sample ds @ rest) =
     (map (LoggerInfo Usage pid) ds @ fst (logPidUsage pid rest), snd (logPidUsage pid rest))"
  by (induction ds) (simp_all add: split_beta)

lemma logProcIO_throws:
  "logProcIO t pid (Throws e # rest) =
     ((case e of ERR_NOT_FOUND \<Rightarrow> [ConsoleError IO pid ''does not exist (this is okay)'']
       | ERR_OTHER c \<Rightarrow> []), Stopped)"
  by (cases e) simp_all

text \<open>
  The monitors do not reach the job: two worlds that differ in the telemetry alone give
  the same result, the same store, the same retry counter and the same events.
\<close>

lemma job_view_eq: "job_view st' = job_view st \<longleftrightarrow>
  db st' = db st \<and> numRetries st' = numRetries st \<and> trace st' = trace st"
  by (simp add: job_view_def)

lemma job_view_spawnAttempt:
  "job_view st' = job_view st \<Longrightarrow>
   job_view (spawnAttempt w' t jm a st') = job_view (spawnAttempt w t jm a st)"
  by (simp add: job_view_eq)

lemma job_view_emit:
  "job_view st' = job_view st \<Longrightarrow> job_view (emit e st') = job_view (emit e st)"
  by (simp add: job_view_eq)

lemma rcl_srem_db:
  "db (rcl_srem w k m st) =
     (case redis_err w SREM of Some e \<Rightarrow> db st | None \<Rightarrow> redis_srem k m (db st))"
  by (simp add: rcl_srem_def Let_def split: option.splits)

lemma job_view_rcl_srem:
  "job_view st' = job_view st \<Longrightarrow> redis_err w' = redis_err w \<Longrightarrow>
   job_view (rcl_srem w' k m st') = job_view (rcl_srem w k m st)"
  by (auto simp add: job_view_eq rcl_srem_trace rcl_srem_db split: option.splits)

lemma job_view_notifyAndFinish:
  assumes v: "job_view st' = job_view st"
    and cn: "connector_notify w' = connector_notify w" and re: "redis_err w' = redis_err w"
  shows "fst (notifyAndFinish w' t m jm c st') = fst (notifyAndFinish w t m jm c st) \<and>
         job_view (snd (notifyAndFinish w' t m jm c st')) = job_view (snd (notifyAndFinish w t m jm c st))"
proof -
  obtain r s' where n: "connector_notify w t c (db st) = (r, s')"
    by (cases "connector_notify w t c (db st)")
  have dbe: "db st' = db st" using v by (simp add: job_view_eq)
  have n': "connector_notify w' t c (db st') = (r, s')" using n cn dbe by simp
  have v1: "job_view ((emit (Notify t c) st')\<lparr> db := s' \<rparr>) = job_view ((emit (Notify t c) st)\<lparr> db := s' \<rparr>)"
    using v by (simp add: job_view_eq)
  show ?thesis
  proof (cases r)
    case (Some err)
    with n n' v show ?thesis
      by (simp add: notifyAndFinish_def Let_def job_view_eq)
  next
    case None
    show ?thesis
    proof (cases "inputs jm = None \<or> outputs jm = None")
      case True
      with None n n' v show ?thesis
        by (simp add: notifyAndFinish_def Let_def job_view_eq)
    next
      case False
      with None n n' job_view_rcl_srem [OF v1 re] show ?thesis
        by (auto simp add: notifyAndFinish_def Let_def)
    qed
  qed
qed



lemma job_view_executeJob:
  assumes cn: "connector_notify w' = connector_notify w" and re: "redis_err w' = redis_err w"
    and ce: "close_event w' = close_event w" and mr: "Math_random w' = Math_random w"
  shows "job_view st' = job_view st \<Longrightarrow>
         fst (executeJob w' t m seed jm a st') = fst (executeJob w t m seed jm a st) \<and>
         job_view (snd (executeJob w' t m seed jm a st')) = job_view (snd (executeJob w t m seed jm a st))"
proof (induction "nat (numRetries st)" arbitrary: st st' a rule: less_induct)
  case less
  have nr: "numRetries st' = numRetries st" using less.prems by (simp add: job_view_eq)
  have ce': "close_event w' a = close_event w a" using ce by simp
  have sp: "job_view (spawnAttempt w' t jm a st') = job_view (spawnAttempt w t jm a st)"
    using less.prems by (rule job_view_spawnAttempt)
  show ?case
  proof (cases rule: executeJob_branches [where w = w and a = a and jm = jm and st = st])
    case hangs
    have h: "executeJob w t m seed jm a st = (Pending, spawnAttempt w t jm a st)"
      using hangs by (rule executeJob_hangs)
    have "close_event w' a = Hangs" using hangs ce' by simp
    then have h': "executeJob w' t m seed jm a st' = (Pending, spawnAttempt w' t jm a st')"
      by (rule executeJob_hangs)
    show ?thesis unfolding h h' using sp by simp
  next
    case no_args
    have h: "executeJob w t m seed jm a st =
        (Pending, emit (Unhandled TypeError) (spawnAttempt w t jm a st))"
      using no_args by (intro executeJob_no_args)
    have "close_event w' a \<noteq> Hangs" "close_code (close_event w' a) \<noteq> Num 0"
      using no_args ce' by simp_all
    then have h': "executeJob w' t m seed jm a st' =
        (Pending, emit (Unhandled TypeError) (spawnAttempt w' t jm a st'))"
      using no_args(3) by (intro executeJob_no_args)
    show ?thesis unfolding h h' using job_view_emit [OF sp] by simp
  next
    case retry
    let ?d = "Backoff (backoffDelay (Math_random w a) seed a)"
    let ?s4 = "emit ?d (spawnAttempt w t jm a st)"
    let ?s4' = "emit ?d (spawnAttempt w' t jm a st')"
    have v4: "job_view ?s4' = job_view ?s4"
      using sp by (rule job_view_emit)
    have dec: "nat (numRetries ?s4) < nat (numRetries st)" using retry by simp
    have IH: "fst (executeJob w' t m seed jm (Suc a) ?s4') = fst (executeJob w t m seed jm (Suc a) ?s4) \<and>
         job_view (snd (executeJob w' t m seed jm (Suc a) ?s4')) =
         job_view (snd (executeJob w t m seed jm (Suc a) ?s4))"
      using less.hyps [OF dec v4] .
    have r: "executeJob w t m seed jm a st = (Pending, snd (executeJob w t m seed jm (Suc a) ?s4))"
      using retry by (simp add: executeJob_retry)
    have r': "executeJob w' t m seed jm a st' = (Pending, snd (executeJob w' t m seed jm (Suc a) ?s4'))"
      using retry ce' nr mr by (simp add: executeJob_retry)
    show ?thesis using IH by (simp add: r r')
  next
    case final
    have f: "executeJob w t m seed jm a st =
        notifyAndFinish w t m jm (close_code (close_event w a)) (spawnAttempt w t jm a st)"
      using final by (simp add: executeJob_final)
    have f': "executeJob w' t m seed jm a st' =
        notifyAndFinish w' t m jm (close_code (close_event w a)) (spawnAttempt w' t jm a st')"
      using final ce' nr by (simp add: executeJob_final)
    show ?thesis
      unfolding f f' by (rule job_view_notifyAndFinish [OF sp cn re])
  qed
qed

lemma same_client:
  assumes "redis_err w' = redis_err w"
  shows "rcl_sadd w' k m st = rcl_sadd w k m st"
    and "acquireTask w' t st = acquireTask w t st"
    and "hasCompleted w' t st = hasCompleted w t st"
    and "getJobMessage w' t timeout st = getJobMessage w t timeout st"
  using assms
  by (simp_all add: rcl_sadd_def acquireTask_def hasCompleted_def getJobMessage_def)

lemma same_waitStep:
  "existsSync w' = existsSync w \<Longrightarrow> waitStep w' cfg jm st = waitStep w cfg jm st"
  by (auto simp add: waitStep_def split: option.splits)

lemma job_view_runJob:
  assumes cn: "connector_notify w' = connector_notify w" and re: "redis_err w' = redis_err w"
    and ce: "close_event w' = close_event w" and mr: "Math_random w' = Math_random w"
    and ex: "existsSync w' = existsSync w"
  shows "fst (runJob w' cfg t jm st) = fst (runJob w cfg t jm st) \<and>
         job_view (snd (runJob w' cfg t jm st)) = job_view (snd (runJob w cfg t jm st))"
proof -
  obtain r st1 where ws: "waitStep w cfg jm st = (r, st1)" by (cases "waitStep w cfg jm st")
  then have ws': "waitStep w' cfg jm st = (r, st1)" using same_waitStep [OF ex] by simp
  show ?thesis
  proof (cases r)
    case WaitRejected
    with ws ws' show ?thesis by (simp add: runJob_def)
  next
    case AllReady
    let ?st2 = "if HF_VAR_ENABLE_NETHOGS cfg = Some ''1'' then emit SpawnNethogs st1 else st1"
    show ?thesis
    proof (cases "args jm = None")
      case True
      with AllReady ws ws' show ?thesis by (simp add: runJob_def Let_def)
    next
      case False
      have a: "runJob w cfg t jm st =
          executeJob w t (allJobsMember cfg t) (env_or (HF_VAR_BACKOFF_SEED cfg) 10) jm 1 ?st2"
        using False AllReady ws by (auto simp add: runJob_def Let_def)
      have b: "runJob w' cfg t jm st =
          executeJob w' t (allJobsMember cfg t) (env_or (HF_VAR_BACKOFF_SEED cfg) 10) jm 1 ?st2"
        using False AllReady ws' by (auto simp add: runJob_def Let_def)
      show ?thesis unfolding a b by (rule job_view_executeJob [OF cn re ce mr refl])
    qed
  qed
qed

lemma job_view_checkCompletedAndRun:
  assumes cn: "connector_notify w' = connector_notify w" and re: "redis_err w' = redis_err w"
    and ce: "close_event w' = close_event w" and mr: "Math_random w' = Math_random w"
    and ex: "existsSync w' = existsSync w" and jp: "JSON_parse w' = JSON_parse w"
  shows "fst (checkCompletedAndRun w' cfg t st) = fst (checkCompletedAndRun w cfg t st) \<and>
         job_view (snd (checkCompletedAndRun w' cfg t st)) =
         job_view (snd (checkCompletedAndRun w cfg t st))"
proof -
  note sc = same_client [OF re]
  obtain p4 st4 where hc: "hasCompleted w t st = (p4, st4)" by (cases "hasCompleted w t st")
  obtain p5 st5 where gm: "getJobMessage w t 0 st4 = (p5, st5)" by (cases "getJobMessage w t 0 st4")
  show ?thesis
  proof (cases "\<exists>msg jm. p4 = Resolved False \<and> p5 = Resolved (Some msg) \<and> JSON_parse w msg = Some jm")
    case True
    then obtain msg jm where *: "p4 = Resolved False" "p5 = Resolved (Some msg)" "JSON_parse w msg = Some jm"
      by blast
    have a: "checkCompletedAndRun w cfg t st = runJob w cfg t jm st5"
      using * hc gm by (simp add: checkCompletedAndRun_def)
    have b: "checkCompletedAndRun w' cfg t st = runJob w' cfg t jm st5"
      using * hc gm by (simp add: checkCompletedAndRun_def sc jp)
    show ?thesis unfolding a b by (rule job_view_runJob [OF cn re ce mr ex])
  next
    case False
    then have "checkCompletedAndRun w' cfg t st = checkCompletedAndRun w cfg t st"
      using hc gm
      by (auto simp add: checkCompletedAndRun_def sc jp split: promise.splits option.splits)
    then show ?thesis by simp
  qed
qed

lemma job_view_handleJob:
  assumes cn: "connector_notify w' = connector_notify w" and re: "redis_err w' = redis_err w"
    and ce: "close_event w' = close_event w" and mr: "Math_random w' = Math_random w"
    and ex: "existsSync w' = existsSync w" and jp: "JSON_parse w' = JSON_parse w"
  shows "fst (handleJob w' cfg t s) = fst (handleJob w cfg t s) \<and>
         job_view (snd (handleJob w' cfg t s)) = job_view (snd (handleJob w cfg t s))"
proof (cases "redis_err w INCR")
  case (Some e)
  then have "redis_err w' INCR = Some e" using re by simp
  with Some show ?thesis
    by (simp add: handleJob_acquire_err registered_def same_client [OF re])
next
  case None
  then have n': "redis_err w' INCR = None" using re by simp
  have "acquired w' cfg t s = acquired w cfg t s"
    by (simp add: acquired_def registered_def same_client [OF re])
  then show ?thesis
    using job_view_checkCompletedAndRun [OF cn re ce mr ex jp, of cfg t "acquired w cfg t s"]
    by (simp add: handleJob_acquire_ok None n')
qed

text \<open>
  C6, as the code has it.  For every pid and every sampling kind, a loop goes on as long
  as its samples succeed, and the first sample that fails ends it, whatever the error:
  no later sample is taken.  On \<^verbatim>\<open>ERR_NOT_FOUND\<close> the IO loop prints a note and the network
  loop prints nothing; on any other error both print nothing.  The usage loop prints the
  code of every error.  What the telemetry answers changes neither the result of the run
  nor its store, retry counter and events.
\<close>

theorem sampling_stops_on_any_error:
  "logProcIO t pid (map Sample ds @ Throws e # rest) =
     (concat (map (\<lambda>d. [LoggerInfo IO pid d, PushToGateway t]) ds) @
        (case e of ERR_NOT_FOUND \<Rightarrow> [ConsoleError IO pid ''does not exist (this is okay)'']
         | ERR_OTHER c \<Rightarrow> []),
      Stopped) \<and>
   logProcNetDev pid (map Sample ds @ Throws e # rest) = (map (LoggerInfo NetDev pid) ds, Stopped) \<and>
   logPidUsage pid (map Sample ds @ Throws e # rest) =
     (map (LoggerInfo Usage pid) ds @ [ConsoleError Usage pid (''pidusage error '' @ err_code e)],
      Stopped) \<and>
   snd (logProcIO t pid (map Sample ds)) = Scheduled \<and>
   snd (logProcNetDev pid (map Sample ds)) = Scheduled \<and>
   snd (logPidUsage pid (map Sample ds)) = Scheduled \<and>
   fst (handleJob (w\<lparr> procfs := tp, pidtree := pt, pid_of := po \<rparr>) cfg taskId s) =
     fst (handleJob w cfg taskId s) \<and>
   job_view (snd (handleJob (w\<lparr> procfs := tp, pidtree := pt, pid_of := po \<rparr>) cfg taskId s)) =
     job_view (snd (handleJob w cfg taskId s))"
proof -
  have io: "snd (logProcIO t pid (map Sample ds)) = Scheduled"
    using logProcIO_samples [of t pid ds "[]"] by simp
  have nd: "snd (logProcNetDev pid (map Sample ds)) = Scheduled"
    using logProcNetDev_samples [of pid ds "[]"] by simp
  have us: "snd (logPidUsage pid (map Sample ds)) = Scheduled"
    using logPidUsage_samples [of pid ds "[]"] by simp
  have jv: "fst (handleJob (w\<lparr> procfs := tp, pidtree := pt, pid_of := po \<rparr>) cfg taskId s) =
     fst (handleJob w cfg taskId s) \<and>
   job_view (snd (handleJob (w\<lparr> procfs := tp, pidtree := pt, pid_of := po \<rparr>) cfg taskId s)) =
     job_view (snd (handleJob w cfg taskId s))"
    by (rule job_view_handleJob) simp_all
  show ?thesis
    using io nd us jv
    by (simp add: logProcIO_samples logProcNetDev_samples logPidUsage_samples logProcIO_throws)
qed

text \<open>Loops whose second sample fails.\<close>

theorem sampling_stops_on_any_error_witness:
  "logProcIO ''task:wf1:0'' 7 [Sample ''io1'', Throws (ERR_OTHER ''EACCES''), Sample ''io2''] =
     ([LoggerInfo IO 7 ''io1'', PushToGateway ''task:wf1:0''], Stopped) \<and>
   logProcNetDev 7 [Sample ''net1'', Throws ERR_NOT_FOUND, Sample ''net2''] =
     ([LoggerInfo NetDev 7 ''net1''], Stopped) \<and>
   logPidUsage 7 [Sample ''cpu1'', Throws ERR_NOT_FOUND, Sample ''cpu2''] =
     ([LoggerInfo Usage 7 ''cpu1'', ConsoleError Usage 7 ''pidusage error ENOENT''], Stopped)"
  using sampling_stops_on_any_error [of "''task:wf1:0''" 7 "[''io1'']" "ERR_OTHER ''EACCES''" "[Sample ''io2'']"]
  by (simp add: err_code_def)

text \<open>
  C6 as stated fails: an error other than \<^verbatim>\<open>ERR_NOT_FOUND\<close> ends each of the three loops (the
  sample after it is never taken), the IO and the network loop do not log it, and the IO
  loop is not silent on \<^verbatim>\<open>ERR_NOT_FOUND\<close>.
\<close>

theorem sampling_other_error_counterexample:
  "logProcIO ''task:wf1:0'' 7 [Throws (ERR_OTHER ''EACCES''), Sample ''io''] = ([], Stopped) \<and>
   logProcNetDev 7 [Throws (ERR_OTHER ''EACCES''), Sample ''net''] = ([], Stopped) \<and>
   logPidUsage 7 [Throws (ERR_OTHER ''EPERM''), Sample ''cpu''] =
     ([ConsoleError Usage 7 ''pidusage error EPERM''], Stopped) \<and>
   logProcIO ''task:wf1:0'' 7 [Throws ERR_NOT_FOUND] =
     ([ConsoleError IO 7 ''does not exist (this is okay)''], Stopped)"
  by (simp add: err_code_def)

end
